theory Spec2Isabelle
  imports Main
begin

section \<open>JavaScript values, promises and the job queue\<close>

text \<open>
  The runner of \<^verbatim>\<open>BehaviorRunner\<close> is asynchronous code: it creates promises, registers
  reactions on them, starts an interval and is re-entered from the interval's callback and
  from promise jobs. The embedding keeps a store of promises (a promise is its index in the
  store, so identity of promises is equality of indices), the queue of promise jobs, the live
  intervals, the runner instances and the log of the calls of \<^verbatim>\<open>next()\<close> made on action
  iterators.
\<close>

datatype jsval =
    JUndefined
  | JNull
  | JBool bool
  | JNum int
  | JStr string
  | StepResult bool jsval \<comment> \<open>\<^verbatim>\<open>{done, value}\<close>\<close>
  | StepOutcome bool bool \<comment> \<open>\<^verbatim>\<open>{done, wait}\<close>\<close>

text \<open>ToBoolean, as used by \<^verbatim>\<open>if (window.$WBBehaviorPaused)\<close>.\<close>

fun truthy :: "jsval \<Rightarrow> bool" where
  "truthy JUndefined = False"
| "truthy JNull = False"
| "truthy (JBool b) = b"
| "truthy (JNum n) = (n \<noteq> 0)"
| "truthy (JStr s) = (s \<noteq> [])"
| "truthy (StepResult d v) = True"
| "truthy (StepOutcome d w) = True"

type_synonym iter = nat \<comment> \<open>reference to an AsyncIterator object\<close>
type_synonym pid = nat \<comment> \<open>reference to a Promise: its index in the store\<close>
type_synonym rid = nat \<comment> \<open>reference to a BehaviorRunner instance\<close>
type_synonym tid = nat \<comment> \<open>handle returned by \<^verbatim>\<open>setInterval\<close>\<close>

text \<open>A post step function: it returns a value (\<open>Inr\<close>) or throws one (\<open>Inl\<close>).\<close>

type_synonym policy = "jsval \<Rightarrow> jsval + jsval"

text \<open>
  What one call of \<^verbatim>\<open>next()\<close> on an action iterator does: it throws, or it returns a promise
  that fulfils with \<^verbatim>\<open>{done, value}\<close>, or one that rejects; the promise is taken to be
  settled when it is returned. The behaviour of the iterators is a parameter of the model:
  \<open>src i k\<close> is what the \<open>k\<close>-th call (from 0) on iterator \<open>i\<close> does.
\<close>

datatype src_event = NextThrows jsval | NextYields bool jsval | NextRejects jsval

type_synonym sources = "iter \<Rightarrow> nat \<Rightarrow> src_event"

datatype settled = Fulfilled jsval | Rejected jsval

text \<open>
  The reactions the runner registers on promises:
  \<^item> \<open>StepResume r a\<close>: the rest of \<^verbatim>\<open>step()\<close> of runner \<open>r\<close> after its \<^verbatim>\<open>await\<close>, where \<open>a\<close>
    is the promise the async function returned;
  \<^item> \<open>ThenPost f d\<close>: \<^verbatim>\<open>resultP.then(this.postStepFN)\<close> with the function \<open>f\<close> read at that
    moment and the derived promise \<open>d\<close>;
  \<^item> \<open>Adopt a\<close>: the resolving functions of \<open>a\<close>, registered when \<open>a\<close> was resolved with
    another promise.
\<close>

datatype reaction = StepResume rid pid | ThenPost policy pid | Adopt pid

datatype promise = Pending "reaction list" | Settled settled

text \<open>
  Promise jobs: a reaction run with the outcome of its promise, and the job that resolving
  promise \<open>a\<close> with promise \<open>q\<close> queues (it calls \<^verbatim>\<open>q.then\<close> with the resolving functions
  of \<open>a\<close>).
\<close>

datatype job = ReactionJob reaction settled | ThenableJob pid pid

record runner =
  stepIterator :: iter
  upCheckInterval :: "tid option"
  postStepFN :: "policy option"
  waitP :: "pid option" \<comment> \<open>\<^verbatim>\<open>_waitP\<close>; \<open>None\<close> is \<^verbatim>\<open>null\<close>\<close>

record world =
  WBBehaviorPaused :: jsval \<comment> \<open>\<^verbatim>\<open>window.$WBBehaviorPaused\<close>\<close>
  runners :: "runner list"
  promises :: "promise list"
  intervals :: "(tid \<times> rid \<times> pid) list"
    \<comment> \<open>live intervals: handle, and the \<^verbatim>\<open>this\<close> and \<^verbatim>\<open>resolve\<close> its callback closes over\<close>
  next_interval :: nat
  microtasks :: "job list"
  calls :: "(rid \<times> iter) list" \<comment> \<open>the calls of \<^verbatim>\<open>next()\<close>: who called, on which iterator\<close>

definition init_world :: "jsval \<Rightarrow> world" where
  "init_world flag =
     \<lparr>WBBehaviorPaused = flag, runners = [], promises = [], intervals = [],
      next_interval = 0, microtasks = [], calls = []\<rparr>"

subsection \<open>Promise operations\<close>

definition new_promise :: "promise \<Rightarrow> world \<Rightarrow> pid \<times> world" where
  "new_promise p w = (length (promises w), w\<lparr>promises := promises w @ [p]\<rparr>)"

text \<open>Settling a pending promise queues a job for each reaction; a settled one stays.\<close>

definition settle_promise :: "pid \<Rightarrow> settled \<Rightarrow> world \<Rightarrow> world" where
  "settle_promise p s w =
     (if p < length (promises w) then
        (case promises w ! p of
           Pending rs \<Rightarrow>
             w\<lparr>promises := (promises w)[p := Settled s],
               microtasks := microtasks w @ map (\<lambda>r. ReactionJob r s) rs\<rparr>
         | Settled _ \<Rightarrow> w)
      else w)"

text \<open>\<^verbatim>\<open>then\<close> and \<^verbatim>\<open>await\<close>: register on a pending promise, queue a job on a settled one.\<close>

definition then_react :: "pid \<Rightarrow> reaction \<Rightarrow> world \<Rightarrow> world" where
  "then_react p r w =
     (if p < length (promises w) then
        (case promises w ! p of
           Pending rs \<Rightarrow> w\<lparr>promises := (promises w)[p := Pending (rs @ [r])]\<rparr>
         | Settled s \<Rightarrow> w\<lparr>microtasks := microtasks w @ [ReactionJob r s]\<rparr>)
      else w)"

text \<open>Resolving promise \<open>a\<close> with the promise \<open>q\<close> (an async function returning a promise).\<close>

definition resolve_with_promise :: "pid \<Rightarrow> pid \<Rightarrow> world \<Rightarrow> world" where
  "resolve_with_promise a q w = w\<lparr>microtasks := microtasks w @ [ThenableJob a q]\<rparr>"

definition clearInterval :: "tid option \<Rightarrow> world \<Rightarrow> world" where
  "clearInterval h w =
     (case h of
        None \<Rightarrow> w
      | Some t \<Rightarrow> w\<lparr>intervals := filter (\<lambda>e. fst e \<noteq> t) (intervals w)\<rparr>)"

section \<open>BehaviorRunner\<close>

definition upd_runner :: "rid \<Rightarrow> (runner \<Rightarrow> runner) \<Rightarrow> world \<Rightarrow> world" where
  "upd_runner r f w = w\<lparr>runners := (runners w)[r := f (runners w ! r)]\<rparr>"

text \<open>
  Modelled from the spec: \<^verbatim>\<open>autobind\<close> is imported from \<^verbatim>\<open>./general\<close>, which is not among the
  sources. The spec describes it as the self-binding of the methods for use as callbacks; it
  is taken to change none of the four fields, so the constructor is its four assignments.
  \<open>dflt\<close> is the imported \<^verbatim>\<open>doneOrWait\<close>; an omitted \<^verbatim>\<open>postStepFN\<close> is \<open>None\<close>.
\<close>

definition BehaviorRunner_new ::
  "policy \<Rightarrow> iter \<Rightarrow> policy option \<Rightarrow> world \<Rightarrow> rid \<times> world" where
  "BehaviorRunner_new dflt behaviorStepIterator postStepFN' w =
     (length (runners w),
      w\<lparr>runners := runners w @
         [\<lparr>stepIterator = behaviorStepIterator,
           upCheckInterval = None,
           postStepFN = Some (case postStepFN' of Some f \<Rightarrow> f | None \<Rightarrow> dflt),
           waitP = None\<rparr>]\<rparr>)"

definition isPaused :: "world \<Rightarrow> jsval" where
  "isPaused w = WBBehaviorPaused w"

definition swapBehaviorIterator :: "rid \<Rightarrow> iter \<Rightarrow> policy option \<Rightarrow> world \<Rightarrow> world" where
  "swapBehaviorIterator r newBehaviorIterator newPostStepFN w =
     (let w1 = upd_runner r (\<lambda>x. x\<lparr>stepIterator := newBehaviorIterator\<rparr>) w
      in case newPostStepFN of
           Some f \<Rightarrow> upd_runner r (\<lambda>x. x\<lparr>postStepFN := Some f\<rparr>) w1
         | None \<Rightarrow> w1)"

definition swapPostStepFn :: "rid \<Rightarrow> policy option \<Rightarrow> world \<Rightarrow> world" where
  "swapPostStepFn r newPostStepFN w = upd_runner r (\<lambda>x. x\<lparr>postStepFN := newPostStepFN\<rparr>) w"

text \<open>
  \<^verbatim>\<open>waitToBeUnpaused\<close>: the promise in \<^verbatim>\<open>_waitP\<close> if there is one; otherwise a new promise,
  whose executor starts the interval and stores its handle, is stored in \<^verbatim>\<open>_waitP\<close>.
\<close>

definition waitToBeUnpaused :: "rid \<Rightarrow> world \<Rightarrow> pid \<times> world" where
  "waitToBeUnpaused r w =
     (case waitP (runners w ! r) of
        Some p \<Rightarrow> (p, w)
      | None \<Rightarrow>
          (case new_promise (Pending []) w of
             (p, w1) \<Rightarrow>
               let t = next_interval w1;
                   w2 = w1\<lparr>intervals := intervals w1 @ [(t, r, p)],
                           next_interval := Suc t\<rparr>;
                   w3 = upd_runner r (\<lambda>x. x\<lparr>upCheckInterval := Some t\<rparr>) w2;
                   w4 = upd_runner r (\<lambda>x. x\<lparr>waitP := Some p\<rparr>) w3
               in (p, w4)))"

text \<open>The callback of the interval started by runner \<open>r\<close> for promise \<open>p\<close>.\<close>

definition interval_callback :: "rid \<Rightarrow> pid \<Rightarrow> world \<Rightarrow> world" where
  "interval_callback r p w =
     (if \<not> truthy (WBBehaviorPaused w) then
        let w1 = clearInterval (upCheckInterval (runners w ! r)) w;
            w2 = upd_runner r (\<lambda>x. x\<lparr>waitP := None\<rparr>) w1
        in settle_promise p (Fulfilled JUndefined) w2
      else w)"

text \<open>
  \<open>iter_next src r i\<close> is the call \<^verbatim>\<open>next()\<close> made by runner \<open>r\<close> on iterator \<open>i\<close>: what
  the call does, and the world with the call logged.
\<close>

definition iter_next :: "sources \<Rightarrow> rid \<Rightarrow> iter \<Rightarrow> world \<Rightarrow> src_event \<times> world" where
  "iter_next src r i w =
     (src i (length (filter (\<lambda>c. snd c = i) (calls w))), w\<lparr>calls := calls w @ [(r, i)]\<rparr>)"

text \<open>
  \<^verbatim>\<open>performStep\<close>: \<open>Inl e\<close> when \<^verbatim>\<open>next()\<close> throws \<open>e\<close>, otherwise \<open>Inr\<close> of the promise
  returned: \<^verbatim>\<open>resultP.then(this.postStepFN)\<close> when \<^verbatim>\<open>this.postStepFN\<close> is set (the part
  \<open>then_postStepFN\<close>), \<^verbatim>\<open>resultP\<close> itself otherwise.
\<close>

definition then_postStepFN :: "rid \<Rightarrow> pid \<times> world \<Rightarrow> (jsval + pid) \<times> world" where
  "then_postStepFN r rw =
     (case rw of
        (resultP, w) \<Rightarrow>
          (case postStepFN (runners w ! r) of
             Some f \<Rightarrow>
               (case new_promise (Pending []) w of
                  (d, w1) \<Rightarrow> (Inr d, then_react resultP (ThenPost f d) w1))
           | None \<Rightarrow> (Inr resultP, w)))"

definition performStep :: "sources \<Rightarrow> rid \<Rightarrow> world \<Rightarrow> (jsval + pid) \<times> world" where
  "performStep src r w =
     (case iter_next src r (stepIterator (runners w ! r)) w of
        (NextThrows e, w1) \<Rightarrow> (Inl e, w1)
      | (NextYields d v, w1) \<Rightarrow>
          then_postStepFN r (new_promise (Settled (Fulfilled (StepResult d v))) w1)
      | (NextRejects e, w1) \<Rightarrow>
          then_postStepFN r (new_promise (Settled (Rejected e)) w1))"

text \<open>
  \<^verbatim>\<open>return this.performStep()\<close> inside the async function whose promise is \<open>a\<close>: a throw
  rejects \<open>a\<close>, a returned promise resolves \<open>a\<close>.
\<close>

definition return_performStep :: "sources \<Rightarrow> rid \<Rightarrow> pid \<Rightarrow> world \<Rightarrow> world" where
  "return_performStep src r a w =
     (case performStep src r w of
        (Inl e, w1) \<Rightarrow> settle_promise a (Rejected e) w1
      | (Inr p, w1) \<Rightarrow> resolve_with_promise a p w1)"

text \<open>
  \<^verbatim>\<open>step\<close> is an async function: every call makes a new promise and returns it. The body
  runs up to its \<^verbatim>\<open>await\<close>; the rest is the reaction \<open>StepResume\<close>.
\<close>

definition step :: "sources \<Rightarrow> rid \<Rightarrow> world \<Rightarrow> pid \<times> world" where
  "step src r w =
     (case new_promise (Pending []) w of
        (a, w1) \<Rightarrow>
          (case waitP (runners w1 ! r) of
             Some p \<Rightarrow> (a, resolve_with_promise a p w1)
           | None \<Rightarrow>
               if truthy (WBBehaviorPaused w1) then
                 (case waitToBeUnpaused r w1 of
                    (p, w2) \<Rightarrow> (a, then_react p (StepResume r a) w2))
               else (a, return_performStep src r a w1)))"

definition pause :: "rid \<Rightarrow> world \<Rightarrow> world" where
  "pause r w = w\<lparr>WBBehaviorPaused := JBool True\<rparr>"

definition unpause :: "rid \<Rightarrow> world \<Rightarrow> world" where
  "unpause r w = w\<lparr>WBBehaviorPaused := JBool False\<rparr>"

section \<open>Running jobs and events\<close>

fun run_job :: "sources \<Rightarrow> job \<Rightarrow> world \<Rightarrow> world" where
  "run_job src (ReactionJob (StepResume r a) (Fulfilled v)) w = return_performStep src r a w"
| "run_job src (ReactionJob (StepResume r a) (Rejected e)) w = settle_promise a (Rejected e) w"
| "run_job src (ReactionJob (ThenPost f d) (Fulfilled v)) w =
     (case f v of
        Inl e \<Rightarrow> settle_promise d (Rejected e) w
      | Inr v' \<Rightarrow> settle_promise d (Fulfilled v') w)"
| "run_job src (ReactionJob (ThenPost f d) (Rejected e)) w = settle_promise d (Rejected e) w"
| "run_job src (ReactionJob (Adopt a) s) w = settle_promise a s w"
| "run_job src (ThenableJob a q) w = then_react q (Adopt a) w"

text \<open>Run the jobs of the queue in order, at most \<open>n\<close> of them.\<close>

fun drain :: "sources \<Rightarrow> nat \<Rightarrow> world \<Rightarrow> world" where
  "drain src 0 w = w"
| "drain src (Suc n) w =
     (case microtasks w of
        [] \<Rightarrow> w
      | j # js \<Rightarrow> drain src n (run_job src j (w\<lparr>microtasks := js\<rparr>)))"

text \<open>
  What can happen to the world: the driver constructs a runner or calls one of its methods
  (from a script or from a reaction of its own, so at any moment), anybody writes the pause
  flag, one promise job runs, or a live interval fires (a timer callback: only when no promise
  job is waiting). \<open>fire\<close> is \<open>None\<close> when the event cannot happen in the state, and
  \<open>exec\<close> runs a sequence of events.
\<close>

datatype event =
    New iter "policy option"
  | Step rid
  | WaitToBeUnpaused rid
  | Pause rid
  | Unpause rid
  | SwapBehaviorIterator rid iter "policy option"
  | SwapPostStepFn rid "policy option"
  | SetFlag jsval
  | Microtask
  | Tick tid

fun lookup_interval :: "tid \<Rightarrow> (tid \<times> rid \<times> pid) list \<Rightarrow> (rid \<times> pid) option" where
  "lookup_interval t [] = None"
| "lookup_interval t (e # es) = (if fst e = t then Some (snd e) else lookup_interval t es)"

definition guard :: "bool \<Rightarrow> world \<Rightarrow> world option" where
  "guard b w = (if b then Some w else None)"

fun fire :: "policy \<Rightarrow> sources \<Rightarrow> event \<Rightarrow> world \<Rightarrow> world option" where
  "fire dflt src (New i f) w = Some (snd (BehaviorRunner_new dflt i f w))"
| "fire dflt src (Step r) w = guard (r < length (runners w)) (snd (step src r w))"
| "fire dflt src (WaitToBeUnpaused r) w =
     guard (r < length (runners w)) (snd (waitToBeUnpaused r w))"
| "fire dflt src (Pause r) w = guard (r < length (runners w)) (pause r w)"
| "fire dflt src (Unpause r) w = guard (r < length (runners w)) (unpause r w)"
| "fire dflt src (SwapBehaviorIterator r i f) w =
     guard (r < length (runners w)) (swapBehaviorIterator r i f w)"
| "fire dflt src (SwapPostStepFn r f) w =
     guard (r < length (runners w)) (swapPostStepFn r f w)"
| "fire dflt src (SetFlag v) w = Some (w\<lparr>WBBehaviorPaused := v\<rparr>)"
| "fire dflt src Microtask w =
     (case microtasks w of
        [] \<Rightarrow> None
      | j # js \<Rightarrow> Some (run_job src j (w\<lparr>microtasks := js\<rparr>)))"
| "fire dflt src (Tick t) w =
     (case microtasks w of
        [] \<Rightarrow>
          (case lookup_interval t (intervals w) of
             Some (r, p) \<Rightarrow> Some (interval_callback r p w)
           | None \<Rightarrow> None)
      | _ \<Rightarrow> None)"

fun exec :: "policy \<Rightarrow> sources \<Rightarrow> event list \<Rightarrow> world \<Rightarrow> world option" where
  "exec dflt src [] w = Some w"
| "exec dflt src (e # es) w =
     (case fire dflt src e w of
        None \<Rightarrow> None
      | Some w' \<Rightarrow> exec dflt src es w')"

section \<open>The default policy and initRunnableBehavior\<close>

text \<open>
  Modelled from the spec: \<^verbatim>\<open>doneOrWait\<close> is imported from \<^verbatim>\<open>./postStepFNs\<close>, which is not
  among the sources. The spec gives it as the default policy, which classifies a StepResult
  as \<^verbatim>\<open>{done, wait: !done && value === special-wait-sentinel}\<close>; the sentinel is a
  parameter. The spec says nothing of an argument that is no StepResult: there the model
  lets the function throw.
\<close>

fun doneOrWait :: "jsval \<Rightarrow> policy" where
  "doneOrWait sentinel (StepResult d v) = Inr (StepOutcome d (\<not> d \<and> v = sentinel))"
| "doneOrWait sentinel v = Inl (JStr ''TypeError'')"

record mouse_position =
  pageX :: int
  pageY :: int
  clientX :: int
  clientY :: int
  screenX :: int
  screenY :: int

record mouse_config =
  etype :: string \<comment> \<open>the property \<^verbatim>\<open>type\<close>\<close>
  position :: mouse_position

text \<open>A function stored on the window: \<open>StepOf r\<close> is \<^verbatim>\<open>runner.step\<close> of runner \<open>r\<close>.\<close>

datatype handler = StepOf rid

text \<open>
  The window handed to \<^verbatim>\<open>initRunnableBehavior\<close>: the three properties it writes (\<open>None\<close>
  is a missing property) and the events dispatched on its document. Any other property
  lives in the extension of the record.
\<close>

record 'e window =
  WBBehaviorStepIter :: "iter option" \<comment> \<open>\<^verbatim>\<open>$WBBehaviorStepIter$\<close>\<close>
  WBBehaviorRunner :: "rid option" \<comment> \<open>\<^verbatim>\<open>$WBBehaviorRunner$\<close>\<close>
  WRIteratorHandler :: "handler option" \<comment> \<open>\<^verbatim>\<open>$WRIteratorHandler$\<close>\<close>
  dispatched :: "'e list"

text \<open>
  \<^verbatim>\<open>createMouseEvent\<close> is imported from \<^verbatim>\<open>./events\<close>, which is not among the sources: it is
  the parameter \<open>createMouseEvent\<close>, a function from the configuration to an event.
\<close>

definition initRunnableBehavior ::
  "(mouse_config \<Rightarrow> 'e) \<Rightarrow> policy \<Rightarrow> ('e, 'x) window_scheme \<Rightarrow> iter \<Rightarrow> policy option \<Rightarrow> world
     \<Rightarrow> rid \<times> ('e, 'x) window_scheme \<times> world" where
  "initRunnableBehavior createMouseEvent dflt win behaviorStepIterator postStepFN' w =
     (let win1 = win\<lparr>WBBehaviorStepIter := Some behaviorStepIterator\<rparr>
      in case BehaviorRunner_new dflt behaviorStepIterator postStepFN' w of
           (runner, w1) \<Rightarrow>
             let win2 = win1\<lparr>WBBehaviorRunner := Some runner\<rparr>;
                 win3 = win2\<lparr>WRIteratorHandler := Some (StepOf runner)\<rparr>;
                 win4 = win3\<lparr>dispatched := dispatched win3 @
                   [createMouseEvent
                      \<lparr>etype = ''mousemove'',
                       position = \<lparr>pageX = 15, pageY = 15, clientX = 150, clientY = 150,
                                   screenX = 500, screenY = 250\<rparr>\<rparr>]\<rparr>
             in (runner, win4, w1))"

section \<open>Scenarios and invariants\<close>

text \<open>
  A driver that awaits each step: it calls \<^verbatim>\<open>step()\<close>, lets at most \<open>n\<close> promise jobs run
  and reads the state of the promise it was given.
\<close>

definition await_step :: "sources \<Rightarrow> nat \<Rightarrow> rid \<Rightarrow> world \<Rightarrow> promise \<times> world" where
  "await_step src n r w =
     (case step src r w of
        (a, w1) \<Rightarrow> (promises (drain src n w1) ! a, drain src n w1))"

text \<open>
  Worlds and sources for the scenarios: the source that yields \<^verbatim>\<open>"a"\<close>, \<^verbatim>\<open>"b"\<close> and is
  then done; a source whose iterator 0 throws and whose iterator 1 rejects; a world with one
  runner on iterator 0 with the default policy; and that world after \<^verbatim>\<open>pause()\<close> and a first
  \<^verbatim>\<open>step()\<close>, which is waiting to be unpaused.
\<close>

definition abc_source :: sources where
  "abc_source i k =
     (if k = 0 then NextYields False (JStr ''a'')
      else if k = 1 then NextYields False (JStr ''b'')
      else NextYields True JUndefined)"


definition one_runner :: world where
  "one_runner = snd (BehaviorRunner_new (doneOrWait JNull) 0 None (init_world JUndefined))"

definition paused_waiting :: world where
  "paused_waiting = snd (step abc_source 0 (pause 0 one_runner))"


fun reaction_target :: "reaction \<Rightarrow> pid" where
  "reaction_target (StepResume r a) = a"
| "reaction_target (ThenPost f d) = d"
| "reaction_target (Adopt a) = a"

fun job_target :: "job \<Rightarrow> pid" where
  "job_target (ReactionJob x s) = reaction_target x"
| "job_target (ThenableJob a q) = a"

fun is_resume :: "reaction \<Rightarrow> bool" where
  "is_resume (StepResume r a) = True"
| "is_resume x = False"

fun is_resume_job :: "job \<Rightarrow> bool" where
  "is_resume_job (ReactionJob x s) = is_resume x"
| "is_resume_job (ThenableJob a q) = False"

text \<open>A resumption of \<^verbatim>\<open>step()\<close> is waiting in the job queue.\<close>

definition resume_queued :: "world \<Rightarrow> bool" where
  "resume_queued w = list_ex is_resume_job (microtasks w)"

definition pending :: "world \<Rightarrow> pid \<Rightarrow> bool" where
  "pending w p =
     (p < length (promises w) \<and> (case promises w ! p of Pending rs \<Rightarrow> True | Settled s \<Rightarrow> False))"

text \<open>
  The futures runner \<open>r\<close> is polling for: one for each live interval that \<open>r\<close> started.
\<close>

definition pending_waits :: "rid \<Rightarrow> world \<Rightarrow> pid list" where
  "pending_waits r w = map (\<lambda>e. snd (snd e)) (filter (\<lambda>e. fst (snd e) = r) (intervals w))"

definition wait_promises :: "world \<Rightarrow> pid set" where
  "wait_promises w = (\<lambda>e. snd (snd e)) ` set (intervals w)"

definition good_target :: "world \<Rightarrow> pid \<Rightarrow> bool" where
  "good_target w q = (q < length (promises w) \<and> q \<notin> wait_promises w)"

text \<open>
  The invariant of the reachable worlds. Interval handles are distinct and were handed out
  by the counter; no two live intervals resolve the same promise; a live interval belongs to
  a runner whose \<^verbatim>\<open>upCheckInterval\<close> and \<^verbatim>\<open>_waitP\<close> are that interval and its promise, which
  is pending; a runner with a promise in \<^verbatim>\<open>_waitP\<close> has a live interval for it; no job and
  no registered reaction settles a promise that an interval is to resolve (\<open>good_target\<close>);
  and a resumption of \<^verbatim>\<open>step()\<close> is registered on such a promise only.
\<close>

definition inv_intervals :: "world \<Rightarrow> bool" where
  "inv_intervals w =
     (distinct (map fst (intervals w))
      \<and> distinct (map (\<lambda>e. snd (snd e)) (intervals w))
      \<and> (\<forall>e \<in> set (intervals w).
            fst e < next_interval w
          \<and> fst (snd e) < length (runners w)
          \<and> upCheckInterval (runners w ! fst (snd e)) = Some (fst e)
          \<and> waitP (runners w ! fst (snd e)) = Some (snd (snd e))
          \<and> pending w (snd (snd e))))"

definition inv_waitP :: "world \<Rightarrow> bool" where
  "inv_waitP w =
     (\<forall>r < length (runners w). \<forall>p. waitP (runners w ! r) = Some p \<longrightarrow>
         (\<exists>t. (t, r, p) \<in> set (intervals w)))"

definition inv_jobs :: "world \<Rightarrow> bool" where
  "inv_jobs w = (\<forall>j \<in> set (microtasks w). good_target w (job_target j))"

definition inv_reacts :: "world \<Rightarrow> bool" where
  "inv_reacts w =
     (\<forall>p < length (promises w). \<forall>rs. promises w ! p = Pending rs \<longrightarrow>
        (\<forall>x \<in> set rs. good_target w (reaction_target x)
                      \<and> (is_resume x \<longrightarrow> p \<in> wait_promises w)))"

definition inv :: "world \<Rightarrow> bool" where
  "inv w = (inv_intervals w \<and> inv_waitP w \<and> inv_jobs w \<and> inv_reacts w)"

text \<open>The events that leave a truthy pause flag truthy.\<close>

fun keeps_paused :: "event \<Rightarrow> bool" where
  "keeps_paused (Unpause r) = False"
| "keeps_paused (SetFlag v) = truthy v"
| "keeps_paused e = True"

fun is_tick :: "event \<Rightarrow> bool" where
  "is_tick (Tick t) = True"
| "is_tick e = False"

text \<open>The events that leave the iterator of runner \<open>r\<close> in place.\<close>

fun keeps_iterator :: "rid \<Rightarrow> event \<Rightarrow> bool" where
  "keeps_iterator r (SwapBehaviorIterator r' i f) = (r' \<noteq> r)"
| "keeps_iterator r e = True"

section \<open>Frame facts\<close>

lemma new_promise_proj [simp]:
  "fst (new_promise pr w) = length (promises w)"
  "promises (snd (new_promise pr w)) = promises w @ [pr]"
  "runners (snd (new_promise pr w)) = runners w"
  "intervals (snd (new_promise pr w)) = intervals w"
  "next_interval (snd (new_promise pr w)) = next_interval w"
  "microtasks (snd (new_promise pr w)) = microtasks w"
  "calls (snd (new_promise pr w)) = calls w"
  "WBBehaviorPaused (snd (new_promise pr w)) = WBBehaviorPaused w"
  by (simp_all add: new_promise_def)

lemma settle_promise_proj [simp]:
  "length (promises (settle_promise q s w)) = length (promises w)"
  "runners (settle_promise q s w) = runners w"
  "intervals (settle_promise q s w) = intervals w"
  "next_interval (settle_promise q s w) = next_interval w"
  "calls (settle_promise q s w) = calls w"
  "WBBehaviorPaused (settle_promise q s w) = WBBehaviorPaused w"
  by (simp_all add: settle_promise_def split: promise.splits)

lemma then_react_proj [simp]:
  "length (promises (then_react q x w)) = length (promises w)"
  "runners (then_react q x w) = runners w"
  "intervals (then_react q x w) = intervals w"
  "next_interval (then_react q x w) = next_interval w"
  "calls (then_react q x w) = calls w"
  "WBBehaviorPaused (then_react q x w) = WBBehaviorPaused w"
  by (simp_all add: then_react_def split: promise.splits)

lemma resolve_with_promise_proj [simp]:
  "promises (resolve_with_promise a q w) = promises w"
  "runners (resolve_with_promise a q w) = runners w"
  "intervals (resolve_with_promise a q w) = intervals w"
  "next_interval (resolve_with_promise a q w) = next_interval w"
  "calls (resolve_with_promise a q w) = calls w"
  "WBBehaviorPaused (resolve_with_promise a q w) = WBBehaviorPaused w"
  "microtasks (resolve_with_promise a q w) = microtasks w @ [ThenableJob a q]"
  by (simp_all add: resolve_with_promise_def)

lemma upd_runner_proj [simp]:
  "promises (upd_runner r f w) = promises w"
  "length (runners (upd_runner r f w)) = length (runners w)"
  "intervals (upd_runner r f w) = intervals w"
  "next_interval (upd_runner r f w) = next_interval w"
  "calls (upd_runner r f w) = calls w"
  "microtasks (upd_runner r f w) = microtasks w"
  "WBBehaviorPaused (upd_runner r f w) = WBBehaviorPaused w"
  by (simp_all add: upd_runner_def)

lemma upd_runner_nth:
  "runners (upd_runner r f w) ! r' =
     (if r' = r \<and> r < length (runners w) then f (runners w ! r) else runners w ! r')"
  by (cases "r < length (runners w)") (auto simp: upd_runner_def nth_list_update list_update_beyond)

section \<open>The invariant\<close>

subsection \<open>Under the promise operations\<close>

lemma wait_fresh: "inv_intervals w \<Longrightarrow> p \<in> wait_promises w \<Longrightarrow> p < length (promises w)"
  by (auto simp: inv_intervals_def wait_promises_def pending_def)

lemma inv_new_promise:
  assumes "inv w" and "pr = Pending [] \<or> (\<exists>s. pr = Settled s)"
  shows "inv (snd (new_promise pr w))"
  using assms unfolding inv_def inv_intervals_def inv_waitP_def inv_jobs_def inv_reacts_def
    good_target_def wait_promises_def pending_def
  by (auto simp: nth_append less_Suc_eq split: promise.splits)

lemma good_new_promise:
  "inv w \<Longrightarrow> good_target (snd (new_promise pr w)) (length (promises w))"
  using wait_fresh [of w "length (promises w)"]
  by (auto simp: good_target_def inv_def wait_promises_def)

lemma good_target_mono_new:
  "good_target w a \<Longrightarrow> good_target (snd (new_promise pr w)) a"
  by (auto simp: good_target_def wait_promises_def)

lemma inv_resolve_with_promise:
  assumes "inv w" and "good_target w a"
  shows "inv (resolve_with_promise a q w)"
  using assms unfolding inv_def inv_intervals_def inv_waitP_def inv_jobs_def inv_reacts_def
    good_target_def wait_promises_def pending_def
  by auto


lemma react_good:
  "inv_reacts w \<Longrightarrow> p < length (promises w) \<Longrightarrow> promises w ! p = Pending rs \<Longrightarrow> x \<in> set rs
     \<Longrightarrow> good_target w (reaction_target x)"
  unfolding inv_reacts_def by blast

lemma react_resume:
  "inv_reacts w \<Longrightarrow> p < length (promises w) \<Longrightarrow> promises w ! p = Pending rs \<Longrightarrow> x \<in> set rs
     \<Longrightarrow> is_resume x \<Longrightarrow> p \<in> wait_promises w"
  unfolding inv_reacts_def by blast

lemma settle_promise_cases:
  "settle_promise q s w = w \<or>
   (\<exists>rs. q < length (promises w) \<and> promises w ! q = Pending rs \<and>
      settle_promise q s w = w\<lparr>promises := (promises w)[q := Settled s],
               microtasks := microtasks w @ map (\<lambda>r. ReactionJob r s) rs\<rparr>)"
  by (auto simp: settle_promise_def split: promise.splits)

lemma good_target_settle [simp]: "good_target (settle_promise q s w) a = good_target w a"
  by (simp add: good_target_def wait_promises_def)

lemma wait_promises_settle [simp]: "wait_promises (settle_promise q s w) = wait_promises w"
  by (simp add: wait_promises_def)

lemma pending_iff:
  "pending w p \<longleftrightarrow> p < length (promises w) \<and> (\<exists>rs. promises w ! p = Pending rs)"
  by (auto simp: pending_def split: promise.splits)

lemma pending_settle: "pending (settle_promise q s w) p = (pending w p \<and> p \<noteq> q)"
  by (cases "q < length (promises w)"; cases "promises w ! q")
     (auto simp: pending_iff settle_promise_def nth_list_update)

lemma inv_settle_promise:
  assumes "inv w" and "q \<notin> wait_promises w"
  shows "inv (settle_promise q s w)"
proof -
  have i: "inv_intervals w" and wp: "inv_waitP w" and j: "inv_jobs w" and re: "inv_reacts w"
    using assms(1) by (simp_all add: inv_def)
  have "inv_intervals (settle_promise q s w)"
    using i assms(2) unfolding inv_intervals_def
    by (auto simp: pending_settle wait_promises_def)
  moreover have "inv_waitP (settle_promise q s w)"
    using wp by (simp add: inv_waitP_def)
  moreover have "inv_jobs (settle_promise q s w)"
  proof (rule disjE [OF settle_promise_cases [of q s w]])
    assume "settle_promise q s w = w" then show ?thesis using j by simp
  next
    assume "\<exists>rs. q < length (promises w) \<and> promises w ! q = Pending rs \<and>
      settle_promise q s w = w\<lparr>promises := (promises w)[q := Settled s],
               microtasks := microtasks w @ map (\<lambda>r. ReactionJob r s) rs\<rparr>"
    then obtain rs where q: "q < length (promises w)" "promises w ! q = Pending rs"
      and eq: "settle_promise q s w = w\<lparr>promises := (promises w)[q := Settled s],
               microtasks := microtasks w @ map (\<lambda>r. ReactionJob r s) rs\<rparr>" by blast
    have "\<forall>x\<in>set rs. good_target w (reaction_target x)"
      using react_good [OF re q] by blast
    then have "\<forall>j\<in>set (microtasks (settle_promise q s w)). good_target w (job_target j)"
      using j by (auto simp: eq inv_jobs_def)
    then show ?thesis unfolding inv_jobs_def by simp
  qed
  moreover have "inv_reacts (settle_promise q s w)"
  proof (rule disjE [OF settle_promise_cases [of q s w]])
    assume "settle_promise q s w = w" then show ?thesis using re by simp
  next
    assume "\<exists>rs. q < length (promises w) \<and> promises w ! q = Pending rs \<and>
      settle_promise q s w = w\<lparr>promises := (promises w)[q := Settled s],
               microtasks := microtasks w @ map (\<lambda>r. ReactionJob r s) rs\<rparr>"
    then obtain rs where q: "q < length (promises w)" "promises w ! q = Pending rs"
      and eq: "promises (settle_promise q s w) = (promises w)[q := Settled s]" by auto
    show ?thesis
      unfolding inv_reacts_def good_target_settle wait_promises_settle
      using re q unfolding inv_reacts_def eq
      by (auto simp: nth_list_update split: if_splits)
  qed
  ultimately show ?thesis by (simp add: inv_def)
qed

lemma then_react_cases:
  "then_react q x w = w \<or>
   (\<exists>rs. q < length (promises w) \<and> promises w ! q = Pending rs \<and>
      then_react q x w = w\<lparr>promises := (promises w)[q := Pending (rs @ [x])]\<rparr>) \<or>
   (\<exists>s. q < length (promises w) \<and> promises w ! q = Settled s \<and>
      then_react q x w = w\<lparr>microtasks := microtasks w @ [ReactionJob x s]\<rparr>)"
  by (auto simp: then_react_def split: promise.splits)

lemma good_target_then_react [simp]: "good_target (then_react q x w) a = good_target w a"
  by (simp add: good_target_def wait_promises_def)

lemma wait_promises_then_react [simp]: "wait_promises (then_react q x w) = wait_promises w"
  by (simp add: wait_promises_def)

lemma pending_then_react [simp]: "pending (then_react q x w) p = pending w p"
  using then_react_cases [of q x w]
  by (elim disjE exE conjE) (auto simp: pending_iff nth_list_update)

lemma inv_then_react:
  assumes "inv w" and "good_target w (reaction_target x)"
    and "is_resume x \<longrightarrow> q \<in> wait_promises w \<and> pending w q"
  shows "inv (then_react q x w)"
proof -
  have i: "inv_intervals w" and wp: "inv_waitP w" and j: "inv_jobs w" and re: "inv_reacts w"
    using assms(1) by (simp_all add: inv_def)
  have "inv_intervals (then_react q x w)"
    using i unfolding inv_intervals_def by simp
  moreover have "inv_waitP (then_react q x w)"
    using wp by (simp add: inv_waitP_def)
  moreover have "inv_jobs (then_react q x w)"
    using then_react_cases [of q x w] j assms(2)
    unfolding inv_jobs_def good_target_then_react
    by (elim disjE exE conjE) (simp, (simp only:)?, auto)
  moreover have "inv_reacts (then_react q x w)"
    unfolding inv_reacts_def good_target_then_react wait_promises_then_react
    using then_react_cases [of q x w] re assms(2,3)
    unfolding inv_reacts_def
    by (elim disjE exE conjE) (auto simp: nth_list_update split: if_splits)
  ultimately show ?thesis by (simp add: inv_def)
qed

subsection \<open>Under the operations of the runner\<close>

lemma inv_flag [simp]: "inv (w\<lparr>WBBehaviorPaused := v\<rparr>) = inv w"
  by (simp add: inv_def inv_intervals_def inv_waitP_def inv_jobs_def inv_reacts_def
      good_target_def wait_promises_def pending_def)

lemma inv_calls [simp]: "inv (w\<lparr>calls := c\<rparr>) = inv w"
  by (simp add: inv_def inv_intervals_def inv_waitP_def inv_jobs_def inv_reacts_def
      good_target_def wait_promises_def pending_def)

lemma good_target_calls [simp]: "good_target (w\<lparr>calls := c\<rparr>) a = good_target w a"
  by (simp add: good_target_def wait_promises_def)

lemma inv_dequeue:
  assumes "inv w" and "microtasks w = j # js"
  shows "inv (w\<lparr>microtasks := js\<rparr>)" and "good_target (w\<lparr>microtasks := js\<rparr>) (job_target j)"
  using assms
  by (simp_all add: inv_def inv_intervals_def inv_waitP_def inv_jobs_def inv_reacts_def
      good_target_def wait_promises_def pending_def)

lemma inv_upd_runner:
  assumes "inv w"
    and "waitP (f (runners w ! r)) = waitP (runners w ! r)"
    and "upCheckInterval (f (runners w ! r)) = upCheckInterval (runners w ! r)"
  shows "inv (upd_runner r f w)"
  using assms
  unfolding inv_def inv_intervals_def inv_waitP_def inv_jobs_def inv_reacts_def
      good_target_def wait_promises_def pending_def
  by (auto simp: upd_runner_nth)

lemma inv_BehaviorRunner_new:
  assumes "inv w"
  shows "inv (snd (BehaviorRunner_new dflt i f w))"
  using assms
  unfolding inv_def inv_intervals_def inv_waitP_def inv_jobs_def inv_reacts_def
      good_target_def wait_promises_def pending_def BehaviorRunner_new_def
  by (auto simp: nth_append less_Suc_eq)

lemma inv_init: "inv (init_world flag)"
  by (simp add: inv_def inv_intervals_def inv_waitP_def inv_jobs_def inv_reacts_def init_world_def)

lemma no_interval_of:
  assumes "inv_intervals w" and "waitP (runners w ! r) = None"
  shows "\<forall>e\<in>set (intervals w). fst (snd e) \<noteq> r"
  using assms unfolding inv_intervals_def by auto

lemma waitToBeUnpaused_Some:
  "waitP (runners w ! r) = Some p \<Longrightarrow> waitToBeUnpaused r w = (p, w)"
  by (simp add: waitToBeUnpaused_def)

lemma waitToBeUnpaused_None:
  assumes "waitP (runners w ! r) = None" and "r < length (runners w)"
  shows "fst (waitToBeUnpaused r w) = length (promises w)"
    and "promises (snd (waitToBeUnpaused r w)) = promises w @ [Pending []]"
    and "intervals (snd (waitToBeUnpaused r w)) =
           intervals w @ [(next_interval w, r, length (promises w))]"
    and "next_interval (snd (waitToBeUnpaused r w)) = Suc (next_interval w)"
    and "microtasks (snd (waitToBeUnpaused r w)) = microtasks w"
    and "calls (snd (waitToBeUnpaused r w)) = calls w"
    and "WBBehaviorPaused (snd (waitToBeUnpaused r w)) = WBBehaviorPaused w"
    and "runners (snd (waitToBeUnpaused r w)) =
           (runners w)[r := (runners w ! r)\<lparr>upCheckInterval := Some (next_interval w),
                                           waitP := Some (length (promises w))\<rparr>]"
  using assms
  by (simp_all add: waitToBeUnpaused_def new_promise_def Let_def upd_runner_def)

lemma inv_waitToBeUnpaused:
  assumes "inv w" and "r < length (runners w)"
  shows "inv (snd (waitToBeUnpaused r w))"
proof (cases "waitP (runners w ! r)")
  case (Some p)
  then show ?thesis using assms by (simp add: waitToBeUnpaused_Some)
next
  case None
  note eqs = waitToBeUnpaused_None [OF None assms(2)]
  have i: "inv_intervals w" and wp: "inv_waitP w" and j: "inv_jobs w" and re: "inv_reacts w"
    using assms(1) by (simp_all add: inv_def)
  have old: "\<forall>e\<in>set (intervals w).
            fst e < next_interval w
          \<and> fst (snd e) < length (runners w)
          \<and> upCheckInterval (runners w ! fst (snd e)) = Some (fst e)
          \<and> waitP (runners w ! fst (snd e)) = Some (snd (snd e))
          \<and> pending w (snd (snd e))"
    and d1: "distinct (map fst (intervals w))"
    and d2: "distinct (map (\<lambda>e. snd (snd e)) (intervals w))"
    using i by (simp_all add: inv_intervals_def)
  have fresh: "\<forall>e\<in>set (intervals w). snd (snd e) < length (promises w) \<and> fst (snd e) \<noteq> r"
  proof
    fix e assume e: "e \<in> set (intervals w)"
    with old have "pending w (snd (snd e))" "waitP (runners w ! fst (snd e)) = Some (snd (snd e))"
      by blast+
    with None show "snd (snd e) < length (promises w) \<and> fst (snd e) \<noteq> r"
      by (auto simp: pending_def)
  qed
  have "distinct (map fst (intervals (snd (waitToBeUnpaused r w))))"
    using d1 old by (auto simp: eqs)
  moreover have "distinct (map (\<lambda>e. snd (snd e)) (intervals (snd (waitToBeUnpaused r w))))"
    using d2 fresh by (auto simp: eqs)
  moreover have "\<forall>e \<in> set (intervals (snd (waitToBeUnpaused r w))).
            fst e < next_interval (snd (waitToBeUnpaused r w))
          \<and> fst (snd e) < length (runners (snd (waitToBeUnpaused r w)))
          \<and> upCheckInterval (runners (snd (waitToBeUnpaused r w)) ! fst (snd e)) = Some (fst e)
          \<and> waitP (runners (snd (waitToBeUnpaused r w)) ! fst (snd e)) = Some (snd (snd e))
          \<and> pending (snd (waitToBeUnpaused r w)) (snd (snd e))"
  proof
    fix e assume "e \<in> set (intervals (snd (waitToBeUnpaused r w)))"
    then consider "e \<in> set (intervals w)" | "e = (next_interval w, r, length (promises w))"
      by (auto simp: eqs)
    then show "fst e < next_interval (snd (waitToBeUnpaused r w))
          \<and> fst (snd e) < length (runners (snd (waitToBeUnpaused r w)))
          \<and> upCheckInterval (runners (snd (waitToBeUnpaused r w)) ! fst (snd e)) = Some (fst e)
          \<and> waitP (runners (snd (waitToBeUnpaused r w)) ! fst (snd e)) = Some (snd (snd e))
          \<and> pending (snd (waitToBeUnpaused r w)) (snd (snd e))"
    proof cases
      case 1
      with old fresh have "fst e < next_interval w" "fst (snd e) < length (runners w)"
        "upCheckInterval (runners w ! fst (snd e)) = Some (fst e)"
        "waitP (runners w ! fst (snd e)) = Some (snd (snd e))"
        "pending w (snd (snd e))" "fst (snd e) \<noteq> r" by auto
      then show ?thesis
        by (simp add: eqs pending_iff nth_append)
    next
      case 2
      then show ?thesis using assms(2)
        by (simp add: eqs pending_iff)
    qed
  qed
  ultimately have "inv_intervals (snd (waitToBeUnpaused r w))"
    unfolding inv_intervals_def by blast
  moreover have "inv_waitP (snd (waitToBeUnpaused r w))"
    using wp assms(2) unfolding inv_waitP_def
    by (auto simp: eqs nth_list_update)
  moreover have "inv_jobs (snd (waitToBeUnpaused r w))"
    using j unfolding inv_jobs_def good_target_def wait_promises_def
    by (auto simp: eqs)
  moreover have "inv_reacts (snd (waitToBeUnpaused r w))"
    unfolding inv_reacts_def
  proof (intro allI impI ballI)
    fix p rs x
    assume "p < length (promises (snd (waitToBeUnpaused r w)))"
      and "promises (snd (waitToBeUnpaused r w)) ! p = Pending rs" and x: "x \<in> set rs"
    then have p: "p < length (promises w)" "promises w ! p = Pending rs"
      using x by (auto simp: eqs nth_append less_Suc_eq split: if_splits)
    have "good_target w (reaction_target x)" and "is_resume x \<longrightarrow> p \<in> wait_promises w"
      using react_good [OF re p x] react_resume [OF re p x] by blast+
    then show "good_target (snd (waitToBeUnpaused r w)) (reaction_target x) \<and>
       (is_resume x \<longrightarrow> p \<in> wait_promises (snd (waitToBeUnpaused r w)))"
      by (auto simp: good_target_def wait_promises_def eqs)
  qed
  ultimately show ?thesis by (simp add: inv_def)
qed

lemma lookup_interval_mem:
  "lookup_interval t es = Some (r, p) \<Longrightarrow> (t, r, p) \<in> set es"
  by (induction es) (auto split: if_splits)

lemma lookup_interval_None:
  "lookup_interval t es = None \<longleftrightarrow> t \<notin> fst ` set es"
  by (induction es) (auto split: if_splits)

lemma interval_callback_paused:
  "truthy (WBBehaviorPaused w) \<Longrightarrow> interval_callback r p w = w"
  by (simp add: interval_callback_def)

lemma clearInterval_proj [simp]:
  "promises (clearInterval h w) = promises w"
  "runners (clearInterval h w) = runners w"
  "next_interval (clearInterval h w) = next_interval w"
  "calls (clearInterval h w) = calls w"
  "microtasks (clearInterval h w) = microtasks w"
  "WBBehaviorPaused (clearInterval h w) = WBBehaviorPaused w"
  "intervals (clearInterval (Some t) w) = filter (\<lambda>e. fst e \<noteq> t) (intervals w)"
  by (simp_all add: clearInterval_def split: option.splits)

lemma distinct_map_eqD:
  "distinct (map f xs) \<Longrightarrow> x \<in> set xs \<Longrightarrow> y \<in> set xs \<Longrightarrow> f x = f y \<Longrightarrow> x = y"
  by (auto simp: distinct_map dest: inj_onD)

lemma inv_intervalsD:
  assumes "inv_intervals w" and "e \<in> set (intervals w)"
  shows "fst e < next_interval w" and "fst (snd e) < length (runners w)"
    and "upCheckInterval (runners w ! fst (snd e)) = Some (fst e)"
    and "waitP (runners w ! fst (snd e)) = Some (snd (snd e))"
    and "pending w (snd (snd e))"
  using assms unfolding inv_intervals_def by blast+

lemma inv_intervals_distinct:
  assumes "inv_intervals w"
  shows "distinct (map fst (intervals w))" and "distinct (map (\<lambda>e. snd (snd e)) (intervals w))"
  using assms unfolding inv_intervals_def by blast+

text \<open>The world after the callback of a live interval has seen the flag falsy.\<close>

lemma tick_world:
  assumes "inv w" and "(t, r, p) \<in> set (intervals w)" and "\<not> truthy (WBBehaviorPaused w)"
  shows "\<exists>rs. promises w ! p = Pending rs \<and>
     interval_callback r p w =
       w\<lparr>runners := (runners w)[r := (runners w ! r)\<lparr>waitP := None\<rparr>],
         promises := (promises w)[p := Settled (Fulfilled JUndefined)],
         intervals := filter (\<lambda>e. fst e \<noteq> t) (intervals w),
         microtasks := microtasks w @ map (\<lambda>x. ReactionJob x (Fulfilled JUndefined)) rs\<rparr>"
proof -
  have i: "inv_intervals w" using assms(1) by (simp add: inv_def)
  have up: "upCheckInterval (runners w ! r) = Some t" and pe: "pending w p"
    using inv_intervalsD [OF i assms(2)] by simp_all
  from pe obtain rs where rs: "p < length (promises w)" "promises w ! p = Pending rs"
    by (auto simp: pending_iff)
  show ?thesis
    using rs up assms(3)
    by (simp add: interval_callback_def Let_def settle_promise_def upd_runner_def clearInterval_def)
qed

lemma tick_intervals:
  assumes "inv_intervals w" and "(t, r, p) \<in> set (intervals w)"
    and "e \<in> set (intervals w)"
  shows "(fst e = t) = (e = (t, r, p))"
  using distinct_map_eqD [OF inv_intervals_distinct(1) [OF assms(1)] assms(3,2)]
  by auto

lemma inv_interval_callback:
  assumes "inv w" and "(t, r, p) \<in> set (intervals w)"
  shows "inv (interval_callback r p w)"
proof (cases "truthy (WBBehaviorPaused w)")
  case True
  then show ?thesis using assms(1) by (simp add: interval_callback_paused)
next
  case False
  have i: "inv_intervals w" and wp: "inv_waitP w" and j: "inv_jobs w" and re: "inv_reacts w"
    using assms(1) by (simp_all add: inv_def)
  from tick_world [OF assms False] obtain rs where rs: "promises w ! p = Pending rs"
    and eq: "interval_callback r p w =
       w\<lparr>runners := (runners w)[r := (runners w ! r)\<lparr>waitP := None\<rparr>],
         promises := (promises w)[p := Settled (Fulfilled JUndefined)],
         intervals := filter (\<lambda>e. fst e \<noteq> t) (intervals w),
         microtasks := microtasks w @ map (\<lambda>x. ReactionJob x (Fulfilled JUndefined)) rs\<rparr>"
    by blast
  let ?w = "interval_callback r p w"
  note mem = tick_intervals [OF i assms(2)]
  have r: "r < length (runners w)" and plt: "p < length (promises w)"
    using inv_intervalsD [OF i assms(2)] by (simp_all add: pending_def)
  have other: "fst (snd e) \<noteq> r \<and> snd (snd e) \<noteq> p"
    if "e \<in> set (intervals w)" "e \<noteq> (t, r, p)" for e
  proof -
    have "fst e \<noteq> t"
      using distinct_map_eqD [OF inv_intervals_distinct(1) [OF i] that(1) assms(2)] that(2) by auto
    moreover have "upCheckInterval (runners w ! fst (snd e)) = Some (fst e)"
      and "upCheckInterval (runners w ! r) = Some t"
      using inv_intervalsD(3) [OF i that(1)] inv_intervalsD(3) [OF i assms(2)] by simp_all
    ultimately have "fst (snd e) \<noteq> r" by auto
    moreover have "snd (snd e) \<noteq> p"
      using distinct_map_eqD [OF inv_intervals_distinct(2) [OF i] that(1) assms(2)] that(2) by auto
    ultimately show ?thesis by simp
  qed
  have sub: "wait_promises ?w = wait_promises w - {p}"
  proof (rule set_eqI)
    fix q
    show "q \<in> wait_promises ?w \<longleftrightarrow> q \<in> wait_promises w - {p}"
    proof
      assume "q \<in> wait_promises ?w"
      then obtain e where e: "e \<in> set (intervals w)" "e \<noteq> (t, r, p)" "q = snd (snd e)"
        unfolding wait_promises_def by (auto simp: eq mem)
      with other [OF e(1,2)] show "q \<in> wait_promises w - {p}"
        by (auto simp: wait_promises_def)
    next
      assume "q \<in> wait_promises w - {p}"
      then obtain e where e: "e \<in> set (intervals w)" "q = snd (snd e)" "q \<noteq> p"
        by (auto simp: wait_promises_def)
      then have "e \<noteq> (t, r, p)" by auto
      with e have "e \<in> set (intervals ?w)" by (simp add: eq mem)
      with e(2) show "q \<in> wait_promises ?w" unfolding wait_promises_def by blast
    qed
  qed
  have good: "good_target w a \<Longrightarrow> good_target ?w a" for a
    by (simp add: good_target_def sub) (simp add: eq)
  have "inv_intervals ?w"
    unfolding inv_intervals_def
  proof (intro conjI ballI)
    show "distinct (map fst (intervals ?w))"
      using inv_intervals_distinct(1) [OF i] by (simp add: eq distinct_map_filter)
    show "distinct (map (\<lambda>e. snd (snd e)) (intervals ?w))"
      using inv_intervals_distinct(2) [OF i] by (simp add: eq distinct_map_filter)
  next
    fix e assume "e \<in> set (intervals ?w)"
    then have e: "e \<in> set (intervals w)" "e \<noteq> (t, r, p)" by (auto simp: eq)
    note o = other [OF e] and d = inv_intervalsD [OF i e(1)]
    show "fst e < next_interval ?w" using d by (simp add: eq)
    show "fst (snd e) < length (runners ?w)" using d by (simp add: eq)
    show "upCheckInterval (runners ?w ! fst (snd e)) = Some (fst e)"
      using d o by (simp add: eq)
    show "waitP (runners ?w ! fst (snd e)) = Some (snd (snd e))"
      using d o by (simp add: eq)
    show "pending ?w (snd (snd e))"
      using d o by (simp add: eq pending_iff)
  qed
  moreover have "inv_waitP ?w"
    unfolding inv_waitP_def
  proof (intro allI impI)
    fix r' p' assume r': "r' < length (runners ?w)" and w': "waitP (runners ?w ! r') = Some p'"
    have ne: "r' \<noteq> r" using w' r by (auto simp: eq)
    then have "waitP (runners w ! r') = Some p'" and "r' < length (runners w)"
      using w' r' by (simp_all add: eq)
    then obtain t' where "(t', r', p') \<in> set (intervals w)"
      using wp unfolding inv_waitP_def by blast
    then have "(t', r', p') \<in> set (intervals ?w)"
      using ne mem [of "(t', r', p')"] by (auto simp: eq)
    then show "\<exists>t. (t, r', p') \<in> set (intervals ?w)" by blast
  qed
  moreover have "inv_jobs ?w"
    unfolding inv_jobs_def
  proof
    fix j' assume "j' \<in> set (microtasks ?w)"
    then consider "j' \<in> set (microtasks w)"
      | x where "x \<in> set rs" "j' = ReactionJob x (Fulfilled JUndefined)"
      by (auto simp: eq)
    then show "good_target ?w (job_target j')"
    proof cases
      case 1
      then show ?thesis using j good unfolding inv_jobs_def by blast
    next
      case 2
      then show ?thesis using react_good [OF re plt rs] good by simp
    qed
  qed
  moreover have "inv_reacts ?w"
    unfolding inv_reacts_def
  proof (intro allI impI ballI)
    fix q qs x assume "q < length (promises ?w)" and "promises ?w ! q = Pending qs"
      and x: "x \<in> set qs"
    then have q: "q < length (promises w)" "promises w ! q = Pending qs" "q \<noteq> p"
      using plt by (auto simp: eq nth_list_update split: if_splits)
    show "good_target ?w (reaction_target x) \<and> (is_resume x \<longrightarrow> q \<in> wait_promises ?w)"
      using react_good [OF re q(1,2) x] react_resume [OF re q(1,2) x] good q(3)
      by (auto simp: sub)
  qed
  ultimately show ?thesis by (simp add: inv_def)
qed

lemma performStep_frame:
  "runners (snd (performStep src r w)) = runners w"
  "intervals (snd (performStep src r w)) = intervals w"
  "next_interval (snd (performStep src r w)) = next_interval w"
  "WBBehaviorPaused (snd (performStep src r w)) = WBBehaviorPaused w"
  "calls (snd (performStep src r w)) = calls w @ [(r, stepIterator (runners w ! r))]"
  by (simp_all add: performStep_def iter_next_def then_postStepFN_def case_prod_beta
      split: src_event.splits option.splits)

lemma inv_then_postStepFN:
  assumes "inv w" and "q < length (promises w)" and "\<exists>s. promises w ! q = Settled s"
  shows "inv (snd (then_postStepFN r (q, w)))"
proof (cases "postStepFN (runners w ! r)")
  case None
  then show ?thesis using assms by (simp add: then_postStepFN_def)
next
  case (Some f)
  have "inv (then_react q (ThenPost f (length (promises w))) (snd (new_promise (Pending []) w)))"
    by (rule inv_then_react) (simp_all add: inv_new_promise assms(1) good_new_promise)
  then show ?thesis using Some by (simp add: then_postStepFN_def case_prod_beta)
qed

lemma good_then_postStepFN:
  "good_target w a \<Longrightarrow> good_target (snd (then_postStepFN r (q, w))) a"
  by (auto simp: then_postStepFN_def good_target_mono_new case_prod_beta split: option.splits)

lemma inv_performStep:
  assumes "inv w"
  shows "inv (snd (performStep src r w))"
proof -
  have "inv (snd (then_postStepFN r (new_promise (Settled s) (w\<lparr>calls := c\<rparr>))))" for s c
    using inv_then_postStepFN [of "snd (new_promise (Settled s) (w\<lparr>calls := c\<rparr>))"
        "length (promises w)" r]
      inv_new_promise [of "w\<lparr>calls := c\<rparr>" "Settled s"] assms
    by (simp add: new_promise_def)
  then show ?thesis
    using assms by (simp add: performStep_def iter_next_def case_prod_beta split: src_event.splits)
qed

lemma good_performStep:
  assumes "good_target w a"
  shows "good_target (snd (performStep src r w)) a"
proof -
  have "good_target (snd (then_postStepFN r (new_promise (Settled s) (w\<lparr>calls := c\<rparr>)))) a" for s c
    using good_then_postStepFN [of "snd (new_promise (Settled s) (w\<lparr>calls := c\<rparr>))" a r
        "length (promises w)"] good_target_mono_new [of "w\<lparr>calls := c\<rparr>" a "Settled s"] assms
    by (simp add: new_promise_def)
  then show ?thesis
    using assms by (simp add: performStep_def iter_next_def case_prod_beta split: src_event.splits)
qed

lemma good_not_wait: "good_target w a \<Longrightarrow> a \<notin> wait_promises w"
  by (simp add: good_target_def)

lemma inv_return_performStep:
  assumes "inv w" and "good_target w a"
  shows "inv (return_performStep src r a w)"
proof (cases "performStep src r w")
  case (Pair res w1)
  have i: "inv w1" and g: "good_target w1 a"
    using inv_performStep [OF assms(1), of src r] good_performStep [OF assms(2), of src r] Pair
    by simp_all
  show ?thesis
    using i g by (cases res)
      (simp_all add: return_performStep_def Pair inv_settle_promise good_not_wait
        inv_resolve_with_promise)
qed

lemma inv_step:
  assumes "inv w" and "r < length (runners w)"
  shows "inv (snd (step src r w))"
proof -
  let ?a = "length (promises w)"
  let ?w1 = "snd (new_promise (Pending []) w)"
  have i1: "inv ?w1" and g1: "good_target ?w1 ?a"
    using assms(1) by (simp_all add: inv_new_promise good_new_promise)
  show ?thesis
  proof (cases "waitP (runners w ! r)")
    case (Some p)
    then show ?thesis
      using inv_resolve_with_promise [OF i1 g1, of p]
      by (simp add: step_def case_prod_beta)
  next
    case None
    show ?thesis
    proof (cases "truthy (WBBehaviorPaused w)")
      case False
      then show ?thesis
        using None inv_return_performStep [OF i1 g1, of src r]
        by (simp add: step_def case_prod_beta)
    next
      case True
      let ?w2 = "snd (waitToBeUnpaused r ?w1)"
      have n1: "waitP (runners ?w1 ! r) = None" and r1: "r < length (runners ?w1)"
        using None assms(2) by simp_all
      note eqs = waitToBeUnpaused_None [OF n1 r1]
      have i2: "inv ?w2" using inv_waitToBeUnpaused [OF i1 r1] .
      have "inv (then_react (Suc ?a) (StepResume r ?a) ?w2)"
      proof (rule inv_then_react [OF i2])
        show "good_target ?w2 (reaction_target (StepResume r ?a))"
          using g1 by (auto simp: good_target_def wait_promises_def eqs)
        show "is_resume (StepResume r ?a) \<longrightarrow>
           Suc ?a \<in> wait_promises ?w2 \<and> pending ?w2 (Suc ?a)"
          by (simp add: wait_promises_def eqs pending_iff nth_append)
      qed
      then show ?thesis
        using None True eqs(1)
        by (simp add: step_def case_prod_beta)
    qed
  qed
qed

lemma inv_run_job:
  assumes "inv w" and "good_target w (job_target j)"
  shows "inv (run_job src j w)"
  using assms
  by (induction src j w rule: run_job.induct)
     (auto simp: inv_return_performStep inv_settle_promise good_not_wait inv_then_react
        split: sum.splits)

lemma inv_fire:
  assumes "inv w" and "fire dflt src e w = Some w'"
  shows "inv w'"
proof (cases e)
  case (Tick t)
  then obtain r p where "lookup_interval t (intervals w) = Some (r, p)"
    and "w' = interval_callback r p w"
    using assms(2) by (auto split: list.splits option.splits)
  then show ?thesis
    using inv_interval_callback [OF assms(1) lookup_interval_mem] by blast
next
  case Microtask
  then obtain j js where "microtasks w = j # js" and "w' = run_job src j (w\<lparr>microtasks := js\<rparr>)"
    using assms(2) by (auto split: list.splits)
  then show ?thesis
    using inv_run_job inv_dequeue [OF assms(1)] by blast
qed (use assms in \<open>auto simp: guard_def inv_BehaviorRunner_new inv_step inv_waitToBeUnpaused
      pause_def unpause_def swapBehaviorIterator_def swapPostStepFn_def Let_def
      inv_upd_runner upd_runner_nth split: if_splits option.splits\<close>)

lemma inv_exec:
  "inv w \<Longrightarrow> exec dflt src es w = Some w' \<Longrightarrow> inv w'"
  by (induction es arbitrary: w) (auto split: option.splits dest: inv_fire)

section \<open>The example worlds\<close>

lemmas world_ops = init_world_def BehaviorRunner_new_def pause_def unpause_def step_def
  new_promise_def waitToBeUnpaused_def upd_runner_def then_react_def resolve_with_promise_def
  settle_promise_def Let_def guard_def

lemma one_runner_eq:
  "one_runner = \<lparr>WBBehaviorPaused = JUndefined,
     runners = [\<lparr>stepIterator = 0, upCheckInterval = None,
                 postStepFN = Some (doneOrWait JNull), waitP = None\<rparr>],
     promises = [], intervals = [], next_interval = 0, microtasks = [], calls = []\<rparr>"
  by (simp add: one_runner_def world_ops)

lemma paused_waiting_eq:
  "paused_waiting = \<lparr>WBBehaviorPaused = JBool True,
     runners = [\<lparr>stepIterator = 0, upCheckInterval = Some 0,
                 postStepFN = Some (doneOrWait JNull), waitP = Some 1\<rparr>],
     promises = [Pending [], Pending [StepResume 0 0]], intervals = [(0, 0, 1)],
     next_interval = 1, microtasks = [], calls = []\<rparr>"
  by (simp add: paused_waiting_def one_runner_eq world_ops)

lemma exec_one_runner:
  "exec (doneOrWait JNull) abc_source [New 0 None] (init_world JUndefined) = Some one_runner"
  by (simp add: one_runner_eq world_ops)

lemma exec_paused_waiting:
  "exec (doneOrWait JNull) abc_source [New 0 None, Pause 0, Step 0, Unpause 0]
     (init_world JUndefined) = Some (unpause 0 paused_waiting)"
  by (simp add: paused_waiting_eq world_ops)

section \<open>At most one pending wait\<close>

lemma distinct_all_eq:
  "distinct xs \<Longrightarrow> \<forall>x\<in>set xs. x = p \<Longrightarrow> xs = [] \<or> xs = [p]"
proof (cases xs)
  case Nil
  then show ?thesis by simp
next
  case (Cons x ys)
  assume d: "distinct xs" and a: "\<forall>x\<in>set xs. x = p"
  have "ys = []"
  proof (rule ccontr)
    assume "ys \<noteq> []"
    then obtain y where "y \<in> set ys" by (cases ys) auto
    then show False using d a Cons by auto
  qed
  then show ?thesis using a Cons by simp
qed

lemma pending_waits_Some:
  assumes "inv w" and "r < length (runners w)" and "waitP (runners w ! r) = Some p"
  shows "pending_waits r w = [p]" and "pending w p"
proof -
  have i: "inv_intervals w" and wp: "inv_waitP w" using assms(1) by (simp_all add: inv_def)
  obtain t where t: "(t, r, p) \<in> set (intervals w)"
    using wp assms(2,3) unfolding inv_waitP_def by blast
  show "pending w p" using inv_intervalsD(5) [OF i t] by simp
  have d: "distinct (pending_waits r w)"
    using inv_intervals_distinct(2) [OF i]
    unfolding pending_waits_def by (rule distinct_map_filter)
  have a: "\<forall>x\<in>set (pending_waits r w). x = p"
  proof
    fix x assume "x \<in> set (pending_waits r w)"
    then obtain e where e: "e \<in> set (intervals w)" "fst (snd e) = r" "x = snd (snd e)"
      unfolding pending_waits_def by auto
    have "waitP (runners w ! r) = Some x"
      using inv_intervalsD(4) [OF i e(1)] e(2,3) by simp
    then show "x = p" using assms(3) by simp
  qed
  have "(t, r, p) \<in> set (filter (\<lambda>e. fst (snd e) = r) (intervals w))"
    using t by simp
  then have "snd (snd (t, r, p)) \<in> set (pending_waits r w)"
    unfolding pending_waits_def set_map by (rule imageI)
  then have "pending_waits r w \<noteq> []" by force
  then show "pending_waits r w = [p]"
    using distinct_all_eq [OF d a] by blast
qed

lemma pending_waits_None:
  assumes "inv w" and "waitP (runners w ! r) = None"
  shows "pending_waits r w = []"
  using no_interval_of [OF _ assms(2)] assms(1)
  by (auto simp: pending_waits_def inv_def filter_empty_conv)

lemma tick_effect:
  assumes "inv w" and "lookup_interval t (intervals w) = Some (r, p)"
    and "\<not> truthy (WBBehaviorPaused w)"
  shows "lookup_interval t (intervals (interval_callback r p w)) = None"
    and "promises (interval_callback r p w) ! p = Settled (Fulfilled JUndefined)"
    and "waitP (runners (interval_callback r p w) ! r) = None"
    and "length (promises (interval_callback r p w)) = length (promises w)"
    and "length (runners (interval_callback r p w)) = length (runners w)"
proof -
  have i: "inv_intervals w" using assms(1) by (simp add: inv_def)
  note m = lookup_interval_mem [OF assms(2)]
  have r: "r < length (runners w)" and p: "p < length (promises w)"
    using inv_intervalsD [OF i m] by (simp_all add: pending_def)
  from tick_world [OF assms(1) m assms(3)] obtain rs where
    eq: "interval_callback r p w =
       w\<lparr>runners := (runners w)[r := (runners w ! r)\<lparr>waitP := None\<rparr>],
         promises := (promises w)[p := Settled (Fulfilled JUndefined)],
         intervals := filter (\<lambda>e. fst e \<noteq> t) (intervals w),
         microtasks := microtasks w @ map (\<lambda>x. ReactionJob x (Fulfilled JUndefined)) rs\<rparr>"
    by blast
  show "lookup_interval t (intervals (interval_callback r p w)) = None"
    by (auto simp: eq lookup_interval_None)
  show "promises (interval_callback r p w) ! p = Settled (Fulfilled JUndefined)"
    using p by (simp add: eq)
  show "waitP (runners (interval_callback r p w) ! r) = None"
    using r by (simp add: eq)
  show "length (promises (interval_callback r p w)) = length (promises w)"
    by (simp add: eq)
  show "length (runners (interval_callback r p w)) = length (runners w)"
    by (simp add: eq)
qed

text \<open>
  \<^bold>\<open>C3.\<close> In every world reached from the initial one by any sequence of events
  (constructions, calls of \<^verbatim>\<open>step\<close>, \<^verbatim>\<open>waitToBeUnpaused\<close>, \<^verbatim>\<open>pause\<close>, \<^verbatim>\<open>unpause\<close> and the
  swaps, writes of the flag, promise jobs, ticks of live intervals), each runner is polling
  for at most one future. While \<^verbatim>\<open>_waitP\<close> holds a future, that future is pending, it is the
  only one polled for, and \<^verbatim>\<open>waitToBeUnpaused\<close> returns that very future and leaves the
  world as it is (no second future, no second interval). With \<^verbatim>\<open>_waitP\<close> empty there is no
  polling loop. When the callback of the runner's interval sees the flag falsy, the interval
  is no longer live, the future is fulfilled (with \<^verbatim>\<open>undefined\<close>), \<^verbatim>\<open>_waitP\<close> is \<^verbatim>\<open>null\<close> and no
  future is polled for; a later \<^verbatim>\<open>waitToBeUnpaused\<close> makes a fresh future, again the only one.
\<close>

theorem single_pending_wait:
  assumes "exec dflt src evs (init_world flag) = Some w" and "r < length (runners w)"
  shows "length (pending_waits r w) \<le> 1
    \<and> (\<forall>p. waitP (runners w ! r) = Some p \<longrightarrow>
          pending_waits r w = [p] \<and> pending w p \<and> waitToBeUnpaused r w = (p, w))
    \<and> (waitP (runners w ! r) = None \<longrightarrow> pending_waits r w = [])
    \<and> (\<forall>t p. lookup_interval t (intervals w) = Some (r, p) \<and> \<not> truthy (WBBehaviorPaused w) \<longrightarrow>
          lookup_interval t (intervals (interval_callback r p w)) = None
        \<and> promises (interval_callback r p w) ! p = Settled (Fulfilled JUndefined)
        \<and> waitP (runners (interval_callback r p w) ! r) = None
        \<and> pending_waits r (interval_callback r p w) = []
        \<and> fst (waitToBeUnpaused r (interval_callback r p w)) = length (promises w)
        \<and> pending_waits r (snd (waitToBeUnpaused r (interval_callback r p w)))
            = [length (promises w)])"
proof -
  have i: "inv w" using inv_exec [OF inv_init assms(1)] .
  have some: "pending_waits r w = [p] \<and> pending w p \<and> waitToBeUnpaused r w = (p, w)"
    if "waitP (runners w ! r) = Some p" for p
    using pending_waits_Some [OF i assms(2) that] that by (simp add: waitToBeUnpaused_Some)
  have none: "waitP (runners w ! r) = None \<longrightarrow> pending_waits r w = []"
    using pending_waits_None [OF i] by blast
  have le: "length (pending_waits r w) \<le> 1"
    using some none by (cases "waitP (runners w ! r)") auto
  have tick: "lookup_interval t (intervals (interval_callback r p w)) = None
        \<and> promises (interval_callback r p w) ! p = Settled (Fulfilled JUndefined)
        \<and> waitP (runners (interval_callback r p w) ! r) = None
        \<and> pending_waits r (interval_callback r p w) = []
        \<and> fst (waitToBeUnpaused r (interval_callback r p w)) = length (promises w)
        \<and> pending_waits r (snd (waitToBeUnpaused r (interval_callback r p w)))
            = [length (promises w)]"
    if l: "lookup_interval t (intervals w) = Some (r, p)" and f: "\<not> truthy (WBBehaviorPaused w)"
    for t p
  proof -
    let ?w = "interval_callback r p w"
    note e = tick_effect [OF i l f]
    have i': "inv ?w" using inv_interval_callback [OF i lookup_interval_mem [OF l]] .
    have r': "r < length (runners ?w)" using assms(2) e(5) by simp
    note eqs = waitToBeUnpaused_None [OF e(3) r']
    have "waitP (runners (snd (waitToBeUnpaused r ?w)) ! r) = Some (length (promises w))"
      using r' e(4) by (simp add: eqs)
    then have "pending_waits r (snd (waitToBeUnpaused r ?w)) = [length (promises w)]"
      using pending_waits_Some(1) [OF inv_waitToBeUnpaused [OF i' r']] r'
      by (simp add: eqs)
    then show ?thesis
      using e(1,2,3,4) pending_waits_None [OF i' e(3)] eqs(1) by simp
  qed
  have "\<forall>p. waitP (runners w ! r) = Some p \<longrightarrow>
          pending_waits r w = [p] \<and> pending w p \<and> waitToBeUnpaused r w = (p, w)"
    using some by (intro allI impI)
  moreover have "\<forall>t p. lookup_interval t (intervals w) = Some (r, p) \<and> \<not> truthy (WBBehaviorPaused w) \<longrightarrow>
          lookup_interval t (intervals (interval_callback r p w)) = None
        \<and> promises (interval_callback r p w) ! p = Settled (Fulfilled JUndefined)
        \<and> waitP (runners (interval_callback r p w) ! r) = None
        \<and> pending_waits r (interval_callback r p w) = []
        \<and> fst (waitToBeUnpaused r (interval_callback r p w)) = length (promises w)
        \<and> pending_waits r (snd (waitToBeUnpaused r (interval_callback r p w)))
            = [length (promises w)]"
  proof (intro allI impI)
    fix t p
    assume "lookup_interval t (intervals w) = Some (r, p) \<and> \<not> truthy (WBBehaviorPaused w)"
    then have "lookup_interval t (intervals w) = Some (r, p)" "\<not> truthy (WBBehaviorPaused w)"
      by simp_all
    then show "lookup_interval t (intervals (interval_callback r p w)) = None
        \<and> promises (interval_callback r p w) ! p = Settled (Fulfilled JUndefined)
        \<and> waitP (runners (interval_callback r p w) ! r) = None
        \<and> pending_waits r (interval_callback r p w) = []
        \<and> fst (waitToBeUnpaused r (interval_callback r p w)) = length (promises w)
        \<and> pending_waits r (snd (waitToBeUnpaused r (interval_callback r p w)))
            = [length (promises w)]"
      by (rule tick)
  qed
  ultimately show ?thesis using le none by (intro conjI)
qed

theorem single_pending_wait_witness:
  "exec (doneOrWait JNull) abc_source [New 0 None, Pause 0, Step 0, Unpause 0]
     (init_world JUndefined) = Some (unpause 0 paused_waiting)
   \<and> pending_waits 0 (unpause 0 paused_waiting) = [1]
   \<and> waitToBeUnpaused 0 (unpause 0 paused_waiting) = (1, unpause 0 paused_waiting)
   \<and> promises (interval_callback 0 1 (unpause 0 paused_waiting)) ! 1
        = Settled (Fulfilled JUndefined)
   \<and> waitP (runners (interval_callback 0 1 (unpause 0 paused_waiting)) ! 0) = None
   \<and> pending_waits 0 (interval_callback 0 1 (unpause 0 paused_waiting)) = []
   \<and> pending_waits 0 (snd (waitToBeUnpaused 0 (interval_callback 0 1 (unpause 0 paused_waiting))))
        = [2]
   \<and> exec (doneOrWait JNull) abc_source [New 0 None] (init_world JUndefined) = Some one_runner
   \<and> waitP (runners one_runner ! 0) = None
   \<and> pending_waits 0 one_runner = []"
proof -
  have r1: "0 < length (runners one_runner)" and w1: "waitP (runners one_runner ! 0) = None"
    by (simp_all add: one_runner_eq)
  have r: "0 < length (runners (unpause 0 paused_waiting))"
    and w: "waitP (runners (unpause 0 paused_waiting) ! 0) = Some 1"
    and l: "lookup_interval 0 (intervals (unpause 0 paused_waiting)) = Some (0, 1)"
    and f: "\<not> truthy (WBBehaviorPaused (unpause 0 paused_waiting))"
    and n: "length (promises (unpause 0 paused_waiting)) = 2"
    by (simp_all add: paused_waiting_eq unpause_def)
  show ?thesis
    using single_pending_wait [OF exec_paused_waiting r] w l f n exec_paused_waiting
      single_pending_wait [OF exec_one_runner r1] w1 exec_one_runner
    by simp
qed

section \<open>No step while paused\<close>

lemma resume_queued_settle:
  assumes "inv_reacts w" and "q \<notin> wait_promises w"
  shows "resume_queued (settle_promise q s w) = resume_queued w"
proof (rule disjE [OF settle_promise_cases [of q s w]])
  assume "settle_promise q s w = w" then show ?thesis by simp
next
  assume "\<exists>rs. q < length (promises w) \<and> promises w ! q = Pending rs \<and>
      settle_promise q s w = w\<lparr>promises := (promises w)[q := Settled s],
               microtasks := microtasks w @ map (\<lambda>r. ReactionJob r s) rs\<rparr>"
  then obtain rs where q: "q < length (promises w)" "promises w ! q = Pending rs"
    and eq: "settle_promise q s w = w\<lparr>promises := (promises w)[q := Settled s],
               microtasks := microtasks w @ map (\<lambda>r. ReactionJob r s) rs\<rparr>" by blast
  have "\<forall>x\<in>set rs. \<not> is_resume x"
    using react_resume [OF assms(1) q] assms(2) by blast
  then show ?thesis
    by (auto simp: eq resume_queued_def list_ex_iff)
qed

lemma resume_queued_then_react:
  assumes "\<not> is_resume x \<or> pending w q"
  shows "resume_queued (then_react q x w) = resume_queued w"
  using then_react_cases [of q x w] assms
  by (elim disjE exE conjE) (auto simp: resume_queued_def pending_iff)

lemma step_paused:
  assumes "truthy (WBBehaviorPaused w)" and "r < length (runners w)"
  shows "calls (snd (step src r w)) = calls w"
    and "WBBehaviorPaused (snd (step src r w)) = WBBehaviorPaused w"
    and "resume_queued (snd (step src r w)) = resume_queued w"
proof -
  let ?w1 = "snd (new_promise (Pending []) w)"
  have n: "waitP (runners w ! r) = None \<Longrightarrow> waitP (runners ?w1 ! r) = None"
    and r1: "r < length (runners ?w1)"
    using assms(2) by simp_all
  have p: "waitP (runners w ! r) = None \<Longrightarrow>
      pending (snd (waitToBeUnpaused r ?w1)) (fst (waitToBeUnpaused r ?w1))"
    using waitToBeUnpaused_None(1,2) [OF n r1] by (simp add: pending_iff nth_append)
  show "calls (snd (step src r w)) = calls w"
    using assms waitToBeUnpaused_None(6) [OF n r1]
    by (simp add: step_def case_prod_beta split: option.splits)
  show "WBBehaviorPaused (snd (step src r w)) = WBBehaviorPaused w"
    using assms waitToBeUnpaused_None(7) [OF n r1]
    by (simp add: step_def case_prod_beta split: option.splits)
  show "resume_queued (snd (step src r w)) = resume_queued w"
  proof (cases "waitP (runners w ! r)")
    case (Some q)
    then show ?thesis
      by (simp add: step_def case_prod_beta resume_queued_def)
  next
    case None
    have "resume_queued (snd (waitToBeUnpaused r ?w1)) = resume_queued w"
      using waitToBeUnpaused_None(5) [OF n [OF None] r1] by (simp add: resume_queued_def)
    then show ?thesis
      using None assms(1) resume_queued_then_react [OF disjI2 [OF p [OF None]]]
      by (simp add: step_def case_prod_beta)
  qed
qed

lemma waitToBeUnpaused_frame:
  assumes "r < length (runners w)"
  shows "calls (snd (waitToBeUnpaused r w)) = calls w"
    and "WBBehaviorPaused (snd (waitToBeUnpaused r w)) = WBBehaviorPaused w"
    and "microtasks (snd (waitToBeUnpaused r w)) = microtasks w"
  using assms waitToBeUnpaused_None [OF _ assms]
  by (cases "waitP (runners w ! r)"; simp add: waitToBeUnpaused_Some)+

lemma run_job_paused:
  assumes "inv w" and "good_target w (job_target j)" and "\<not> is_resume_job j"
  shows "calls (run_job src j w) = calls w"
    and "WBBehaviorPaused (run_job src j w) = WBBehaviorPaused w"
    and "resume_queued (run_job src j w) = resume_queued w"
proof -
  have re: "inv_reacts w" using assms(1) by (simp add: inv_def)
  show "calls (run_job src j w) = calls w"
    using assms(3) by (induction src j w rule: run_job.induct) (auto split: sum.splits)
  show "WBBehaviorPaused (run_job src j w) = WBBehaviorPaused w"
    using assms(3) by (induction src j w rule: run_job.induct) (auto split: sum.splits)
  show "resume_queued (run_job src j w) = resume_queued w"
    using assms(2,3) re
    by (induction src j w rule: run_job.induct)
       (auto simp: resume_queued_settle resume_queued_then_react good_not_wait split: sum.splits)
qed

lemma return_performStep_fresh:
  assumes "a < length (promises w)" and "promises w ! a = Pending []"
  shows "resume_queued (return_performStep src r a w) = resume_queued w"
proof -
  have t: "resume_queued (snd (then_postStepFN r' (q, v))) = resume_queued v" for r' q v
    by (cases "postStepFN (runners v ! r')")
       (simp_all add: then_postStepFN_def case_prod_beta resume_queued_then_react,
        simp add: resume_queued_def)
  show ?thesis
  proof (cases "fst (iter_next src r (stepIterator (runners w ! r)) w)")
    case (NextThrows e)
    then show ?thesis
      using assms
      by (simp add: return_performStep_def performStep_def iter_next_def settle_promise_def
          resume_queued_def)
  next
    case (NextYields d v)
    then show ?thesis
      using t [of r "length (promises w)"
          "snd (new_promise (Settled (Fulfilled (StepResult d v)))
                 (w\<lparr>calls := calls w @ [(r, stepIterator (runners w ! r))]\<rparr>))"]
      by (simp add: return_performStep_def performStep_def iter_next_def case_prod_beta
          new_promise_def then_postStepFN_def resume_queued_def split: option.splits)
  next
    case (NextRejects e)
    then show ?thesis
      using t [of r "length (promises w)"
          "snd (new_promise (Settled (Rejected e))
                 (w\<lparr>calls := calls w @ [(r, stepIterator (runners w ! r))]\<rparr>))"]
      by (simp add: return_performStep_def performStep_def iter_next_def case_prod_beta
          new_promise_def then_postStepFN_def resume_queued_def split: option.splits)
  qed
qed

lemma step_resume_queued:
  assumes "r < length (runners w)"
  shows "resume_queued (snd (step src r w)) = resume_queued w"
proof (cases "truthy (WBBehaviorPaused w)")
  case True
  then show ?thesis using step_paused(3) [OF True assms] by simp
next
  case False
  show ?thesis
  proof (cases "waitP (runners w ! r)")
    case (Some q)
    then show ?thesis by (simp add: step_def case_prod_beta resume_queued_def)
  next
    case None
    have "resume_queued (return_performStep src r (length (promises w))
        (snd (new_promise (Pending []) w))) = resume_queued (snd (new_promise (Pending []) w))"
      by (rule return_performStep_fresh) simp_all
    then show ?thesis
      using None False by (simp add: step_def case_prod_beta resume_queued_def)
  qed
qed

lemma fire_quiet:
  assumes "inv w" and "\<not> resume_queued w" and "fire dflt src e w = Some w'"
  shows "truthy (WBBehaviorPaused w) \<longrightarrow> calls w' = calls w \<and> \<not> resume_queued w'"
    and "resume_queued w' \<longrightarrow> is_tick e"
proof -
  have "(truthy (WBBehaviorPaused w) \<longrightarrow> calls w' = calls w \<and> \<not> resume_queued w')
    \<and> (resume_queued w' \<longrightarrow> is_tick e)"
  proof (cases e)
    case (Step r)
    then show ?thesis
      using assms step_paused(1) [of w r src] step_resume_queued [of r w src]
      by (auto simp: guard_def split: if_splits)
  next
    case (WaitToBeUnpaused r)
    then show ?thesis
      using assms waitToBeUnpaused_frame [of r w]
      by (auto simp: guard_def resume_queued_def split: if_splits)
  next
    case Microtask
    then obtain j js where js: "microtasks w = j # js"
      and w': "w' = run_job src j (w\<lparr>microtasks := js\<rparr>)"
      using assms(3) by (auto split: list.splits)
    have nr: "\<not> is_resume_job j" "\<not> resume_queued (w\<lparr>microtasks := js\<rparr>)"
      using assms(2) js by (simp_all add: resume_queued_def)
    show ?thesis
      using run_job_paused [OF inv_dequeue [OF assms(1) js] nr(1), of src] nr(2)
      by (simp add: w' Microtask)
  next
    case (Tick t)
    then show ?thesis
      using assms by (auto simp: interval_callback_paused split: list.splits option.splits)
  qed (use assms in \<open>auto simp: guard_def BehaviorRunner_new_def pause_def unpause_def
        swapBehaviorIterator_def swapPostStepFn_def upd_runner_def resume_queued_def Let_def
        split: if_splits option.splits\<close>)
  then show "truthy (WBBehaviorPaused w) \<longrightarrow> calls w' = calls w \<and> \<not> resume_queued w'"
    and "resume_queued w' \<longrightarrow> is_tick e"
    by blast+
qed

lemma fire_keeps_paused:
  assumes "truthy (WBBehaviorPaused w)" and "keeps_paused e" and "fire dflt src e w = Some w'"
  shows "truthy (WBBehaviorPaused w')"
proof (cases e)
  case (Step r)
  then show ?thesis
    using assms step_paused(2) [of w r src] by (auto simp: guard_def split: if_splits)
next
  case (WaitToBeUnpaused r)
  then show ?thesis
    using assms waitToBeUnpaused_frame [of r w] by (auto simp: guard_def split: if_splits)
next
  case Microtask
  then obtain j js where "w' = run_job src j (w\<lparr>microtasks := js\<rparr>)"
    using assms(3) by (auto split: list.splits)
  moreover have "WBBehaviorPaused (run_job src j v) = WBBehaviorPaused v" for v
    by (induction src j v rule: run_job.induct)
       (simp_all add: return_performStep_def case_prod_beta performStep_frame
          split: sum.splits)
  ultimately show ?thesis using assms(1) by simp
next
  case (Tick t)
  then show ?thesis
    using assms by (auto simp: interval_callback_paused split: list.splits option.splits)
qed (use assms in \<open>auto simp: guard_def BehaviorRunner_new_def pause_def
      swapBehaviorIterator_def swapPostStepFn_def upd_runner_def Let_def
      split: if_splits option.splits\<close>)

lemma exec_paused:
  assumes "inv w" and "truthy (WBBehaviorPaused w)" and "\<not> resume_queued w"
    and "list_all keeps_paused evs" and "exec dflt src evs w = Some w'"
  shows "calls w' = calls w \<and> truthy (WBBehaviorPaused w') \<and> \<not> resume_queued w'"
  using assms
proof (induction evs arbitrary: w)
  case Nil
  then show ?case by simp
next
  case (Cons e evs)
  from Cons.prems(5) obtain w1 where f: "fire dflt src e w = Some w1"
    and x: "exec dflt src evs w1 = Some w'"
    by (auto split: option.splits)
  have k: "keeps_paused e" "list_all keeps_paused evs" using Cons.prems(4) by simp_all
  have s: "calls w1 = calls w" "\<not> resume_queued w1" "truthy (WBBehaviorPaused w1)"
    using fire_quiet(1) [OF Cons.prems(1,3) f] Cons.prems(2)
      fire_keeps_paused [OF Cons.prems(2) k(1) f] by simp_all
  have "calls w' = calls w1 \<and> truthy (WBBehaviorPaused w') \<and> \<not> resume_queued w'"
    using Cons.IH [OF inv_fire [OF Cons.prems(1) f] s(3,2) k(2) x] .
  then show ?case using s(1) by simp
qed

text \<open>
  \<^bold>\<open>C2.\<close> Take any reachable world in which no resumption of a waiting \<^verbatim>\<open>step()\<close> is in the
  job queue. First, if the pause flag is truthy then, whatever happens next, calls of
  \<^verbatim>\<open>step()\<close> among it, as long as nothing makes the flag falsy (no \<^verbatim>\<open>unpause()\<close>, no write
  of a falsy value), no iterator is advanced: the log of the calls of \<^verbatim>\<open>next()\<close> stays as it
  is, the flag stays truthy and no resumption enters the queue. Second, an event that
  advances an iterator finds the flag falsy. Third, a resumption enters the queue only by
  the tick of an interval whose callback finds the flag falsy. So a \<^verbatim>\<open>step()\<close> called while
  paused advances nothing before the flag has been seen falsy. (In JavaScript a resumption
  is the first job in the queue when the tick ends and runs before any other code; the
  events here interleave freely, so the worlds with a resumption still queued are set
  apart.)
\<close>

theorem paused_never_advances:
  assumes "exec dflt src evs0 (init_world flag) = Some w" and "\<not> resume_queued w"
  shows "(\<forall>evs w'. truthy (WBBehaviorPaused w) \<and> list_all keeps_paused evs
            \<and> exec dflt src evs w = Some w'
          \<longrightarrow> calls w' = calls w \<and> truthy (WBBehaviorPaused w') \<and> \<not> resume_queued w')
    \<and> (\<forall>e v. fire dflt src e w = Some v \<and> calls v \<noteq> calls w
          \<longrightarrow> \<not> truthy (WBBehaviorPaused w))
    \<and> (\<forall>e v. fire dflt src e w = Some v \<and> resume_queued v
          \<longrightarrow> is_tick e \<and> \<not> truthy (WBBehaviorPaused w))"
proof -
  have i: "inv w" using inv_exec [OF inv_init assms(1)] .
  have a: "calls w' = calls w \<and> truthy (WBBehaviorPaused w') \<and> \<not> resume_queued w'"
    if "truthy (WBBehaviorPaused w)" "list_all keeps_paused evs" "exec dflt src evs w = Some w'"
    for evs w'
    using exec_paused [OF i that(1) assms(2) that(2,3)] .
  have b: "\<not> truthy (WBBehaviorPaused w)"
    if "fire dflt src e w = Some v" "calls v \<noteq> calls w" for e v
    using fire_quiet(1) [OF i assms(2) that(1)] that(2) by blast
  have c: "is_tick e \<and> \<not> truthy (WBBehaviorPaused w)"
    if "fire dflt src e w = Some v" "resume_queued v" for e v
    using fire_quiet [OF i assms(2) that(1)] that(2) by blast
  show ?thesis
    using a b c by blast
qed

theorem paused_never_advances_witness:
  "exec (doneOrWait JNull) abc_source [New 0 None, Pause 0] (init_world JUndefined)
     = Some (pause 0 one_runner)
   \<and> \<not> resume_queued (pause 0 one_runner)
   \<and> truthy (WBBehaviorPaused (pause 0 one_runner))
   \<and> list_all keeps_paused [Step 0, Tick 0]
   \<and> exec (doneOrWait JNull) abc_source [Step 0, Tick 0] (pause 0 one_runner)
     = Some paused_waiting
   \<and> calls paused_waiting = calls (pause 0 one_runner)
   \<and> truthy (WBBehaviorPaused paused_waiting)
   \<and> \<not> resume_queued paused_waiting
   \<and> exec (doneOrWait JNull) abc_source [New 0 None] (init_world JUndefined) = Some one_runner
   \<and> \<not> resume_queued one_runner
   \<and> fire (doneOrWait JNull) abc_source (Step 0) one_runner
       = Some (snd (step abc_source 0 one_runner))
   \<and> calls (snd (step abc_source 0 one_runner)) \<noteq> calls one_runner
   \<and> \<not> truthy (WBBehaviorPaused one_runner)"
proof -
  have h1: "exec (doneOrWait JNull) abc_source [New 0 None, Pause 0] (init_world JUndefined)
     = Some (pause 0 one_runner)"
    by (simp add: one_runner_eq world_ops)
  have h2: "truthy (WBBehaviorPaused (pause 0 one_runner))"
    by (simp add: pause_def)
  have h3: "\<not> resume_queued (pause 0 one_runner)"
    by (simp add: one_runner_eq pause_def resume_queued_def)
  have h4: "list_all keeps_paused [Step 0, Tick 0]"
    by simp
  have h5: "exec (doneOrWait JNull) abc_source [Step 0, Tick 0] (pause 0 one_runner)
     = Some paused_waiting"
    by (simp add: paused_waiting_eq one_runner_eq world_ops interval_callback_def)
  have g1: "exec (doneOrWait JNull) abc_source [New 0 None] (init_world JUndefined)
     = Some one_runner"
    by (simp add: one_runner_eq world_ops)
  have g2: "\<not> resume_queued one_runner"
    by (simp add: one_runner_eq resume_queued_def)
  have g3: "fire (doneOrWait JNull) abc_source (Step 0) one_runner
       = Some (snd (step abc_source 0 one_runner))"
    by (simp add: one_runner_eq guard_def)
  have g4: "calls (snd (step abc_source 0 one_runner)) \<noteq> calls one_runner"
    by (simp add: one_runner_eq step_def new_promise_def return_performStep_def performStep_def
        iter_next_def then_postStepFN_def then_react_def resolve_with_promise_def abc_source_def)
  show ?thesis
    using paused_never_advances [OF h1 h3] paused_never_advances [OF g1 g2]
      h1 h2 h3 h4 h5 g1 g2 g3 g4
    by blast
qed

section \<open>Swapping the iterator\<close>

lemma return_performStep_frame:
  "calls (return_performStep src r a w) = calls w @ [(r, stepIterator (runners w ! r))]"
  "runners (return_performStep src r a w) = runners w"
  "WBBehaviorPaused (return_performStep src r a w) = WBBehaviorPaused w"
  "intervals (return_performStep src r a w) = intervals w"
  by (cases "performStep src r w"; cases "fst (performStep src r w)";
      use performStep_frame [of src r w] in \<open>simp add: return_performStep_def\<close>)+

lemma waitToBeUnpaused_iterator:
  "stepIterator (runners (snd (waitToBeUnpaused r w)) ! r') = stepIterator (runners w ! r')"
  "length (runners (snd (waitToBeUnpaused r w))) = length (runners w)"
  "calls (snd (waitToBeUnpaused r w)) = calls w"
  by (cases "waitP (runners w ! r)";
      simp add: waitToBeUnpaused_def case_prod_beta Let_def upd_runner_nth)+

lemma step_iterator:
  "stepIterator (runners (snd (step src r w)) ! r') = stepIterator (runners w ! r')"
  "length (runners (snd (step src r w))) = length (runners w)"
  by (simp_all add: step_def case_prod_beta return_performStep_frame waitToBeUnpaused_iterator
      split: option.splits)

lemma step_calls:
  "calls (snd (step src r w)) = calls w \<or>
   calls (snd (step src r w)) = calls w @ [(r, stepIterator (runners w ! r))]"
  by (simp add: step_def case_prod_beta return_performStep_frame waitToBeUnpaused_iterator
      split: option.splits)

lemma run_job_iterator:
  "runners (run_job src j w) = runners w"
  by (induction src j w rule: run_job.induct) (simp_all add: return_performStep_frame split: sum.splits)

lemma run_job_calls:
  "calls (run_job src j w) = calls w \<or>
   (\<exists>r. calls (run_job src j w) = calls w @ [(r, stepIterator (runners w ! r))])"
  by (induction src j w rule: run_job.induct) (auto simp: return_performStep_frame split: sum.splits)

lemma interval_callback_iterator:
  "stepIterator (runners (interval_callback r p w) ! r') = stepIterator (runners w ! r')"
  "length (runners (interval_callback r p w)) = length (runners w)"
  "calls (interval_callback r p w) = calls w"
  by (simp_all add: interval_callback_def Let_def upd_runner_nth)

lemma fire_iterator:
  assumes "fire dflt src e w = Some w'" and "keeps_iterator r e" and "r < length (runners w)"
  shows "stepIterator (runners w' ! r) = stepIterator (runners w ! r)"
    and "r < length (runners w')"
    and "calls w' = calls w \<or>
         (\<exists>r'. calls w' = calls w @ [(r', stepIterator (runners w ! r'))])"
proof -
  show "stepIterator (runners w' ! r) = stepIterator (runners w ! r)"
    using assms
    by (cases e)
       (auto simp: guard_def BehaviorRunner_new_def nth_append step_iterator
          waitToBeUnpaused_iterator pause_def unpause_def swapBehaviorIterator_def
          swapPostStepFn_def upd_runner_nth Let_def run_job_iterator interval_callback_iterator
          split: if_splits option.splits list.splits)
  show "r < length (runners w')"
    using assms
    by (cases e)
       (auto simp: guard_def BehaviorRunner_new_def step_iterator
          waitToBeUnpaused_iterator pause_def unpause_def swapBehaviorIterator_def
          swapPostStepFn_def Let_def run_job_iterator interval_callback_iterator
          split: if_splits option.splits list.splits)
  show "calls w' = calls w \<or>
         (\<exists>r'. calls w' = calls w @ [(r', stepIterator (runners w ! r'))])"
  proof (cases e)
    case (Step r')
    then show ?thesis using assms(1) step_calls [of src r' w]
      by (auto simp: guard_def split: if_splits)
  next
    case Microtask
    then obtain j js where "microtasks w = j # js" "w' = run_job src j (w\<lparr>microtasks := js\<rparr>)"
      using assms(1) by (auto split: list.splits)
    then show ?thesis using run_job_calls [of src j "w\<lparr>microtasks := js\<rparr>"] by simp
  qed (use assms(1) in \<open>auto simp: guard_def BehaviorRunner_new_def
          waitToBeUnpaused_iterator pause_def unpause_def swapBehaviorIterator_def
          swapPostStepFn_def upd_runner_def Let_def interval_callback_iterator
          split: if_splits option.splits list.splits\<close>)
qed

lemma exec_iterator:
  assumes "exec dflt src evs w = Some w'" and "list_all (keeps_iterator r) evs"
    and "r < length (runners w)" and "stepIterator (runners w ! r) = s2"
  shows "take (length (calls w)) (calls w') = calls w
    \<and> (\<forall>c \<in> set (drop (length (calls w)) (calls w')). fst c = r \<longrightarrow> snd c = s2)"
  using assms
proof (induction evs arbitrary: w)
  case Nil
  then show ?case by simp
next
  case (Cons e evs)
  from Cons.prems(1) obtain w1 where f: "fire dflt src e w = Some w1"
    and x: "exec dflt src evs w1 = Some w'"
    by (auto split: option.splits)
  have k: "keeps_iterator r e" "list_all (keeps_iterator r) evs" using Cons.prems(2) by simp_all
  note s = fire_iterator [OF f k(1) Cons.prems(3)]
  have ih: "take (length (calls w1)) (calls w') = calls w1
    \<and> (\<forall>c \<in> set (drop (length (calls w1)) (calls w')). fst c = r \<longrightarrow> snd c = s2)"
    using Cons.IH [OF x k(2) s(2)] s(1) Cons.prems(4) by simp
  from s(3) show ?case
  proof
    assume "calls w1 = calls w" then show ?thesis using ih by simp
  next
    assume "\<exists>r'. calls w1 = calls w @ [(r', stepIterator (runners w ! r'))]"
    then obtain r' where c: "calls w1 = calls w @ [(r', stepIterator (runners w ! r'))]" by blast
    obtain rest where rest: "calls w' = calls w1 @ rest"
      using ih by (metis append_take_drop_id)
    have d: "drop (length (calls w1)) (calls w') = rest" using rest by simp
    have ar: "\<forall>c \<in> set rest. fst c = r \<longrightarrow> snd c = s2"
      using ih unfolding d by blast
    have full: "calls w' = calls w @ (r', stepIterator (runners w ! r')) # rest"
      using rest c by simp
    have "take (length (calls w)) (calls w') = calls w"
      and "drop (length (calls w)) (calls w') = (r', stepIterator (runners w ! r')) # rest"
      unfolding full by simp_all
    then show ?thesis
      using ar Cons.prems(4) by auto
  qed
qed

lemma swapBehaviorIterator_frame:
  assumes "r < length (runners w)"
  shows "stepIterator (runners (swapBehaviorIterator r s2 post w) ! r) = s2"
    and "waitP (runners (swapBehaviorIterator r s2 post w) ! r) = waitP (runners w ! r)"
    and "length (runners (swapBehaviorIterator r s2 post w)) = length (runners w)"
    and "calls (swapBehaviorIterator r s2 post w) = calls w"
    and "WBBehaviorPaused (swapBehaviorIterator r s2 post w) = WBBehaviorPaused w"
    and "promises (swapBehaviorIterator r s2 post w) = promises w"
  using assms
  by (simp_all add: swapBehaviorIterator_def Let_def upd_runner_nth split: option.splits)

lemma step_unpaused_calls:
  assumes "\<not> truthy (WBBehaviorPaused w)" and "waitP (runners w ! r) = None"
  shows "calls (snd (step src r w)) = calls w @ [(r, stepIterator (runners w ! r))]"
  using assms by (simp add: step_def case_prod_beta return_performStep_frame)

text \<open>
  \<^bold>\<open>C6.\<close> After \<^verbatim>\<open>swapBehaviorIterator(S2)\<close> on runner \<open>r\<close> the runner's iterator is \<open>S2\<close>.
  Whatever happens afterwards (calls of \<^verbatim>\<open>step()\<close>, resumptions of steps that were waiting
  when the swap was made, ticks, promise jobs, anything but another swap of the iterator of
  \<open>r\<close>), the log of calls only grows, and every call of \<^verbatim>\<open>next()\<close> that \<open>r\<close> makes after the
  swap is a call on \<open>S2\<close>: none is made on the iterator it had before. In particular a
  \<^verbatim>\<open>step()\<close> issued right after the swap, unpaused and with no pending wait, calls
  \<^verbatim>\<open>S2.next()\<close>.
\<close>

theorem swap_iterator_redirects:
  assumes "r < length (runners w)" and "list_all (keeps_iterator r) evs"
    and "exec dflt src evs (swapBehaviorIterator r s2 post w) = Some w'"
  shows "stepIterator (runners (swapBehaviorIterator r s2 post w) ! r) = s2
    \<and> take (length (calls w)) (calls w') = calls w
    \<and> (\<forall>c \<in> set (drop (length (calls w)) (calls w')). fst c = r \<longrightarrow> snd c = s2)
    \<and> (\<not> truthy (WBBehaviorPaused w) \<and> waitP (runners w ! r) = None \<longrightarrow>
          calls (snd (step src r (swapBehaviorIterator r s2 post w))) = calls w @ [(r, s2)])"
proof -
  note f = swapBehaviorIterator_frame [OF assms(1), of s2 post]
  have "take (length (calls w)) (calls w') = calls w
    \<and> (\<forall>c \<in> set (drop (length (calls w)) (calls w')). fst c = r \<longrightarrow> snd c = s2)"
    using exec_iterator [OF assms(3,2) _ f(1)] assms(1) f(3,4) by simp
  moreover have "calls (snd (step src r (swapBehaviorIterator r s2 post w))) = calls w @ [(r, s2)]"
    if "\<not> truthy (WBBehaviorPaused w)" "waitP (runners w ! r) = None"
    using step_unpaused_calls [of "swapBehaviorIterator r s2 post w" r src] that f by simp
  ultimately show ?thesis using f(1) by blast
qed

theorem swap_iterator_redirects_witness:
  "0 < length (runners paused_waiting)
   \<and> list_all (keeps_iterator 0) [Unpause 0, Tick 0, Microtask]
   \<and> stepIterator (runners paused_waiting ! 0) = 0
   \<and> map_option calls
        (exec (doneOrWait JNull) abc_source [Unpause 0, Tick 0, Microtask]
           (swapBehaviorIterator 0 5 None paused_waiting)) = Some [(0, 5)]
   \<and> calls (snd (step abc_source 0 (swapBehaviorIterator 0 5 None one_runner))) = [(0, 5)]"
proof -
  define W where "W = the (exec (doneOrWait JNull) abc_source [Unpause 0, Tick 0, Microtask]
           (swapBehaviorIterator 0 5 None paused_waiting))"
  have h1: "0 < length (runners paused_waiting)" and h1': "0 < length (runners one_runner)"
    and i: "stepIterator (runners paused_waiting ! 0) = 0"
    by (simp_all add: paused_waiting_eq one_runner_eq)
  have h2: "list_all (keeps_iterator 0) [Unpause 0, Tick 0, Microtask]" by simp
  have ev: "map_option calls
        (exec (doneOrWait JNull) abc_source [Unpause 0, Tick 0, Microtask]
           (swapBehaviorIterator 0 5 None paused_waiting)) = Some [(0, 5)]"
    by (simp add: paused_waiting_eq world_ops swapBehaviorIterator_def interval_callback_def
        clearInterval_def return_performStep_def performStep_def iter_next_def
        then_postStepFN_def abc_source_def)
  then have h3: "exec (doneOrWait JNull) abc_source [Unpause 0, Tick 0, Microtask]
           (swapBehaviorIterator 0 5 None paused_waiting) = Some W"
    unfolding W_def by (auto simp: map_option_case split: option.splits)
  have h4: "exec (doneOrWait JNull) abc_source [] (swapBehaviorIterator 0 5 None one_runner)
     = Some (swapBehaviorIterator 0 5 None one_runner)" by simp
  have o: "\<not> truthy (WBBehaviorPaused one_runner)" "waitP (runners one_runner ! 0) = None"
    "calls one_runner = []"
    by (simp_all add: one_runner_eq)
  show ?thesis
    using swap_iterator_redirects [OF h1 h2 h3] swap_iterator_redirects [OF h1' _ h4]
      h1 h2 i ev o
    by simp
qed

section \<open>The post step function\<close>

lemmas step_ops = step_def new_promise_def return_performStep_def performStep_def
  then_postStepFN_def iter_next_def then_react_def settle_promise_def resolve_with_promise_def
  Let_def nth_append

text \<open>
  \<^bold>\<open>C4.\<close> As stated the claim fails: \<^verbatim>\<open>swapPostStepFn\<close> stores its argument, so a call with
  no argument clears \<^verbatim>\<open>postStepFN\<close>. In the world with one runner and the default policy,
  a step resolves with the policy's outcome \<^verbatim>\<open>{done: false, wait: false}\<close>; after
  \<^verbatim>\<open>swapPostStepFn()\<close> the same step resolves with the raw result
  \<^verbatim>\<open>{done: false, value: "a"}\<close>.
\<close>

theorem swapPostStepFn_no_argument_counterexample:
  "postStepFN (runners (swapPostStepFn 0 None one_runner) ! 0) \<noteq> postStepFN (runners one_runner ! 0)
   \<and> promises (drain abc_source 3 (snd (step abc_source 0 one_runner))) ! 0
       = Settled (Fulfilled (StepOutcome False False))
   \<and> promises (drain abc_source 3 (snd (step abc_source 0 (swapPostStepFn 0 None one_runner)))) ! 0
       = Settled (Fulfilled (StepResult False (JStr ''a'')))"
  by (simp add: one_runner_eq step_ops numeral_3_eq_3 swapPostStepFn_def upd_runner_def
      abc_source_def)

text \<open>
  \<^bold>\<open>C4, amended.\<close> \<^verbatim>\<open>swapPostStepFn\<close> installs its argument, whatever it is. The very next
  \<^verbatim>\<open>step()\<close> (unpaused, no pending wait, the iterator yielding \<^verbatim>\<open>{done, value}\<close>) returns a
  promise that, once the promise jobs have run, is settled as follows: after a call with a
  function, with what that function makes of the result (rejected if it throws); after a
  call with no argument, with the raw result, no policy being applied any more.
\<close>

theorem policy_swap_takes_effect:
  assumes "r < length (runners w)"
    and "waitP (runners w ! r) = None"
    and "\<not> truthy (WBBehaviorPaused w)"
    and "microtasks w = []"
    and "fst (iter_next src r (stepIterator (runners w ! r)) w) = NextYields d v"
  shows "postStepFN (runners (swapPostStepFn r post w) ! r) = post
    \<and> fst (step src r (swapPostStepFn r post w)) = length (promises w)
    \<and> promises (drain src 3 (snd (step src r (swapPostStepFn r post w)))) ! length (promises w) =
        Settled (case post of
                   None \<Rightarrow> Fulfilled (StepResult d v)
                 | Some f \<Rightarrow> (case f (StepResult d v) of
                               Inl e \<Rightarrow> Rejected e
                             | Inr v' \<Rightarrow> Fulfilled v'))
    \<and> microtasks (drain src 3 (snd (step src r (swapPostStepFn r post w)))) = []"
  using assms
  by (simp add: step_ops numeral_3_eq_3 swapPostStepFn_def upd_runner_def
      split: option.splits sum.splits)

theorem policy_swap_takes_effect_witness:
  "0 < length (runners one_runner)
   \<and> waitP (runners one_runner ! 0) = None
   \<and> \<not> truthy (WBBehaviorPaused one_runner)
   \<and> microtasks one_runner = []
   \<and> fst (iter_next abc_source 0 (stepIterator (runners one_runner ! 0)) one_runner)
       = NextYields False (JStr ''a'')
   \<and> promises (drain abc_source 3 (snd (step abc_source 0 (swapPostStepFn 0 None one_runner)))) ! 0
       = Settled (Fulfilled (StepResult False (JStr ''a'')))
   \<and> promises (drain abc_source 3
        (snd (step abc_source 0 (swapPostStepFn 0 (Some (\<lambda>x. Inr (JNum 7))) one_runner)))) ! 0
       = Settled (Fulfilled (JNum 7))"
proof -
  have h: "0 < length (runners one_runner)" "waitP (runners one_runner ! 0) = None"
    "\<not> truthy (WBBehaviorPaused one_runner)" "microtasks one_runner = []"
    "fst (iter_next abc_source 0 (stepIterator (runners one_runner ! 0)) one_runner)
       = NextYields False (JStr ''a'')"
    and n: "length (promises one_runner) = 0"
    by (simp_all add: one_runner_eq iter_next_def abc_source_def)
  show ?thesis
    using policy_swap_takes_effect [OF h, of None]
      policy_swap_takes_effect [OF h, of "Some (\<lambda>x. Inr (JNum 7))"] h n
    by simp
qed

text \<open>
  \<^bold>\<open>C10.\<close> When \<^verbatim>\<open>postStepFN\<close> is unset, as it is after \<^verbatim>\<open>swapPostStepFn()\<close> with no
  argument, \<^verbatim>\<open>performStep\<close> returns the promise of \<^verbatim>\<open>next()\<close> itself, which holds the raw
  \<^verbatim>\<open>{done, value}\<close>, and registers nothing on it. A \<^verbatim>\<open>step()\<close> called unpaused with no pending
  wait then resolves with that raw result: two promise jobs settle its promise and empty the
  queue.
\<close>

theorem unset_policy_gives_raw_result:
  assumes "r < length (runners w)"
    and "postStepFN (runners w ! r) = None"
    and "fst (iter_next src r (stepIterator (runners w ! r)) w) = NextYields d v"
  shows "fst (performStep src r w) = Inr (length (promises w))
    \<and> promises (snd (performStep src r w)) = promises w @ [Settled (Fulfilled (StepResult d v))]
    \<and> microtasks (snd (performStep src r w)) = microtasks w
    \<and> (\<not> truthy (WBBehaviorPaused w) \<and> waitP (runners w ! r) = None \<and> microtasks w = [] \<longrightarrow>
          promises (drain src 2 (snd (step src r w))) ! fst (step src r w)
            = Settled (Fulfilled (StepResult d v))
        \<and> microtasks (drain src 2 (snd (step src r w))) = [])
    \<and> postStepFN (runners (swapPostStepFn r None w) ! r) = None"
  using assms
  by (simp add: step_ops numeral_2_eq_2 swapPostStepFn_def upd_runner_def)

theorem unset_policy_gives_raw_result_witness:
  "0 < length (runners (swapPostStepFn 0 None one_runner))
   \<and> postStepFN (runners (swapPostStepFn 0 None one_runner) ! 0) = None
   \<and> fst (iter_next abc_source 0 (stepIterator (runners (swapPostStepFn 0 None one_runner) ! 0))
         (swapPostStepFn 0 None one_runner)) = NextYields False (JStr ''a'')
   \<and> fst (performStep abc_source 0 (swapPostStepFn 0 None one_runner)) = Inr 0
   \<and> promises (snd (performStep abc_source 0 (swapPostStepFn 0 None one_runner)))
       = [Settled (Fulfilled (StepResult False (JStr ''a'')))]
   \<and> fst (step abc_source 0 (swapPostStepFn 0 None one_runner)) = 0
   \<and> promises (drain abc_source 2 (snd (step abc_source 0 (swapPostStepFn 0 None one_runner)))) ! 0
       = Settled (Fulfilled (StepResult False (JStr ''a'')))"
proof -
  let ?w = "swapPostStepFn 0 None one_runner"
  have h: "0 < length (runners ?w)" "postStepFN (runners ?w ! 0) = None"
    "fst (iter_next abc_source 0 (stepIterator (runners ?w ! 0)) ?w) = NextYields False (JStr ''a'')"
    and u: "\<not> truthy (WBBehaviorPaused ?w)" "waitP (runners ?w ! 0) = None" "microtasks ?w = []"
      "promises ?w = []" "fst (step abc_source 0 ?w) = 0"
    by (simp_all add: one_runner_eq swapPostStepFn_def upd_runner_def iter_next_def
        abc_source_def step_def new_promise_def case_prod_beta)
  show ?thesis
    using unset_policy_gives_raw_result [OF h] h u by simp
qed

section \<open>Failures\<close>







section \<open>The scenario with the default policy\<close>

lemma await_step_unpaused:
  assumes "\<not> truthy (WBBehaviorPaused w)" and "waitP (runners w ! r) = None"
    and "microtasks w = []" and "r < length (runners w)"
    and "postStepFN (runners w ! r) = Some f"
    and "fst (iter_next src r (stepIterator (runners w ! r)) w) = NextYields d v"
    and "f (StepResult d v) = Inr v'"
  shows "fst (await_step src 3 r w) = Settled (Fulfilled v')"
    and "microtasks (snd (await_step src 3 r w)) = []"
    and "runners (snd (await_step src 3 r w)) = runners w"
    and "WBBehaviorPaused (snd (await_step src 3 r w)) = WBBehaviorPaused w"
    and "calls (snd (await_step src 3 r w)) = calls w @ [(r, stepIterator (runners w ! r))]"
  using assms
  by (simp_all add: await_step_def step_ops numeral_3_eq_3 nth_list_update)

text \<open>
  \<^bold>\<open>C7.\<close> A runner is constructed without a post step function, so with the default
  \<^verbatim>\<open>doneOrWait\<close>, on an iterator whose first three calls of \<^verbatim>\<open>next()\<close> yield
  \<^verbatim>\<open>{done: false, value: "a"}\<close>, \<^verbatim>\<open>{done: false, value: "b"}\<close> and
  \<^verbatim>\<open>{done: true, value: undefined}\<close>; the pause flag is falsy. Three steps, each awaited
  (three promise jobs settle it and empty the queue), resolve in order with the outcome of
  \<^verbatim>\<open>doneOrWait\<close> for \<^verbatim>\<open>"a"\<close>, its outcome for \<^verbatim>\<open>"b"\<close>, and \<^verbatim>\<open>{done: true, wait: false}\<close>; the
  iterator has been called three times.
\<close>

theorem default_policy_scenario:
  assumes "\<not> truthy flag"
    and "src i 0 = NextYields False (JStr ''a'')"
    and "src i 1 = NextYields False (JStr ''b'')"
    and "src i 2 = NextYields True JUndefined"
  shows "(case BehaviorRunner_new (doneOrWait sentinel) i None (init_world flag) of (r, w0) \<Rightarrow>
          case await_step src 3 r w0 of (p1, w1) \<Rightarrow>
          case await_step src 3 r w1 of (p2, w2) \<Rightarrow>
          case await_step src 3 r w2 of (p3, w3) \<Rightarrow>
            doneOrWait sentinel (StepResult False (JStr ''a''))
              = Inr (StepOutcome False (JStr ''a'' = sentinel))
          \<and> doneOrWait sentinel (StepResult False (JStr ''b''))
              = Inr (StepOutcome False (JStr ''b'' = sentinel))
          \<and> p1 = Settled (Fulfilled (StepOutcome False (JStr ''a'' = sentinel)))
          \<and> p2 = Settled (Fulfilled (StepOutcome False (JStr ''b'' = sentinel)))
          \<and> p3 = Settled (Fulfilled (StepOutcome True False))
          \<and> microtasks w1 = [] \<and> microtasks w2 = [] \<and> microtasks w3 = []
          \<and> calls w3 = [(r, i), (r, i), (r, i)])"
proof -
  let ?w0 = "snd (BehaviorRunner_new (doneOrWait sentinel) i None (init_world flag))"
  have w0: "\<not> truthy (WBBehaviorPaused ?w0)" "waitP (runners ?w0 ! 0) = None"
    "microtasks ?w0 = []" "0 < length (runners ?w0)"
    "postStepFN (runners ?w0 ! 0) = Some (doneOrWait sentinel)"
    "stepIterator (runners ?w0 ! 0) = i" "calls ?w0 = []" "runners ?w0 ! 0 = runners ?w0 ! 0"
    using assms(1) by (simp_all add: BehaviorRunner_new_def init_world_def)
  have n1: "fst (iter_next src 0 (stepIterator (runners ?w0 ! 0)) ?w0) = NextYields False (JStr ''a'')"
    using assms(2) w0(6,7) by (simp add: iter_next_def)
  note s1 = await_step_unpaused [OF w0(1-5) n1, of "StepOutcome False (JStr ''a'' = sentinel)"]
  let ?w1 = "snd (await_step src 3 0 ?w0)"
  have c1: "calls ?w1 = [(0, i)]" using s1(5) w0(6,7) by simp
  have n2: "fst (iter_next src 0 (stepIterator (runners ?w1 ! 0)) ?w1) = NextYields False (JStr ''b'')"
    using assms(3) w0(6) s1(3) c1 by (simp add: iter_next_def)
  have w1: "\<not> truthy (WBBehaviorPaused ?w1)" "waitP (runners ?w1 ! 0) = None"
    "microtasks ?w1 = []" "0 < length (runners ?w1)"
    "postStepFN (runners ?w1 ! 0) = Some (doneOrWait sentinel)"
    using s1 w0 by simp_all
  note s2 = await_step_unpaused [OF w1 n2, of "StepOutcome False (JStr ''b'' = sentinel)"]
  let ?w2 = "snd (await_step src 3 0 ?w1)"
  have c2: "calls ?w2 = [(0, i), (0, i)]" using s2(5) c1 s1(3) w0(6) by simp
  have n3: "fst (iter_next src 0 (stepIterator (runners ?w2 ! 0)) ?w2) = NextYields True JUndefined"
    using assms(4) w0(6) s1(3) s2(3) c2 by (simp add: iter_next_def numeral_2_eq_2)
  have w2: "\<not> truthy (WBBehaviorPaused ?w2)" "waitP (runners ?w2 ! 0) = None"
    "microtasks ?w2 = []" "0 < length (runners ?w2)"
    "postStepFN (runners ?w2 ! 0) = Some (doneOrWait sentinel)"
    using s2 w1 by simp_all
  note s3 = await_step_unpaused [OF w2 n3, of "StepOutcome True False"]
  let ?w3 = "snd (await_step src 3 0 ?w2)"
  have c3: "calls ?w3 = [(0, i), (0, i), (0, i)]" using s3(5) c2 s2(3) s1(3) w0(6) by simp
  have r0: "fst (BehaviorRunner_new (doneOrWait sentinel) i None (init_world flag)) = 0"
    by (simp add: BehaviorRunner_new_def init_world_def)
  show ?thesis
    using s1(1,2) s2(1,2) s3(1,2) c3 r0
    by (simp add: case_prod_beta)
qed

theorem default_policy_scenario_witness:
  "\<not> truthy JUndefined
   \<and> abc_source 0 0 = NextYields False (JStr ''a'')
   \<and> abc_source 0 1 = NextYields False (JStr ''b'')
   \<and> abc_source 0 2 = NextYields True JUndefined
   \<and> one_runner = snd (BehaviorRunner_new (doneOrWait JNull) 0 None (init_world JUndefined))
   \<and> fst (await_step abc_source 3 0 one_runner) = Settled (Fulfilled (StepOutcome False False))
   \<and> fst (await_step abc_source 3 0 (snd (await_step abc_source 3 0 one_runner)))
       = Settled (Fulfilled (StepOutcome False False))
   \<and> fst (await_step abc_source 3 0
         (snd (await_step abc_source 3 0 (snd (await_step abc_source 3 0 one_runner)))))
       = Settled (Fulfilled (StepOutcome True False))
   \<and> calls (snd (await_step abc_source 3 0
         (snd (await_step abc_source 3 0 (snd (await_step abc_source 3 0 one_runner))))))
       = [(0, 0), (0, 0), (0, 0)]"
proof -
  have h: "\<not> truthy JUndefined" "abc_source 0 0 = NextYields False (JStr ''a'')"
    "abc_source 0 1 = NextYields False (JStr ''b'')" "abc_source 0 2 = NextYields True JUndefined"
    by (simp_all add: abc_source_def)
  have r: "BehaviorRunner_new (doneOrWait JNull) 0 None (init_world JUndefined) = (0, one_runner)"
    by (simp add: one_runner_def BehaviorRunner_new_def init_world_def)
  show ?thesis
    using default_policy_scenario
        [where flag = JUndefined and src = abc_source and i = 0 and sentinel = JNull, OF h] h
    by (simp add: r case_prod_beta one_runner_def [symmetric])
qed

section \<open>Registration on the window\<close>

text \<open>
  \<^bold>\<open>C9.\<close> \<^verbatim>\<open>initRunnableBehavior\<close> stores the iterator it is given in \<^verbatim>\<open>$WBBehaviorStepIter$\<close>,
  constructs a runner (a new instance, on that iterator, with the policy given or the
  default one, not waiting) and stores it in \<^verbatim>\<open>$WBBehaviorRunner$\<close>, stores the \<^verbatim>\<open>step\<close> of
  that runner in \<^verbatim>\<open>$WRIteratorHandler$\<close>, dispatches one event, the one \<^verbatim>\<open>createMouseEvent\<close>
  makes of the type \<^verbatim>\<open>mousemove\<close> and the position (15, 15), (150, 150), (500, 250), and
  returns the runner. Nothing else of the window changes, and of the world only the list of
  runners.
\<close>

theorem initRunnableBehavior_registers:
  assumes "initRunnableBehavior createMouseEvent dflt win i f w = (r, win', w')"
  shows "WBBehaviorStepIter win' = Some i
    \<and> WBBehaviorRunner win' = Some r
    \<and> WRIteratorHandler win' = Some (StepOf r)
    \<and> dispatched win' = dispatched win @
         [createMouseEvent
            \<lparr>etype = ''mousemove'',
             position = \<lparr>pageX = 15, pageY = 15, clientX = 150, clientY = 150,
                         screenX = 500, screenY = 250\<rparr>\<rparr>]
    \<and> window.more win' = window.more win
    \<and> (r, w') = BehaviorRunner_new dflt i f w
    \<and> r = length (runners w)
    \<and> runners w' = runners w @
         [\<lparr>stepIterator = i, upCheckInterval = None,
           postStepFN = Some (case f of Some g \<Rightarrow> g | None \<Rightarrow> dflt), waitP = None\<rparr>]
    \<and> WBBehaviorPaused w' = WBBehaviorPaused w
    \<and> promises w' = promises w \<and> intervals w' = intervals w
    \<and> microtasks w' = microtasks w \<and> calls w' = calls w"
  using assms
  by (auto simp add: initRunnableBehavior_def BehaviorRunner_new_def Let_def)

theorem initRunnableBehavior_registers_witness:
  "initRunnableBehavior (\<lambda>c. c) (doneOrWait JNull)
     \<lparr>WBBehaviorStepIter = None, WBBehaviorRunner = None, WRIteratorHandler = None,
      dispatched = []\<rparr> 0 None (init_world JUndefined)
   = (0,
      \<lparr>WBBehaviorStepIter = Some 0, WBBehaviorRunner = Some 0,
       WRIteratorHandler = Some (StepOf 0),
       dispatched = [\<lparr>etype = ''mousemove'',
             position = \<lparr>pageX = 15, pageY = 15, clientX = 150, clientY = 150,
                         screenX = 500, screenY = 250\<rparr>\<rparr>]\<rparr>,
      one_runner)
   \<and> runners one_runner =
         [\<lparr>stepIterator = 0, upCheckInterval = None,
           postStepFN = Some (doneOrWait JNull), waitP = None\<rparr>]"
proof -
  have e: "initRunnableBehavior (\<lambda>c. c) (doneOrWait JNull)
     \<lparr>WBBehaviorStepIter = None, WBBehaviorRunner = None, WRIteratorHandler = None,
      dispatched = []\<rparr> 0 None (init_world JUndefined)
   = (0,
      \<lparr>WBBehaviorStepIter = Some 0, WBBehaviorRunner = Some 0,
       WRIteratorHandler = Some (StepOf 0),
       dispatched = [\<lparr>etype = ''mousemove'',
             position = \<lparr>pageX = 15, pageY = 15, clientX = 150, clientY = 150,
                         screenX = 500, screenY = 250\<rparr>\<rparr>]\<rparr>,
      one_runner)"
    by (simp add: initRunnableBehavior_def one_runner_def BehaviorRunner_new_def Let_def
        init_world_def)
  show ?thesis
    using initRunnableBehavior_registers [OF e] e
    by (simp add: init_world_def)
qed

section \<open>A step while a wait is pending\<close>

text \<open>
  \<^bold>\<open>C1.\<close> What \<^verbatim>\<open>step()\<close> does in a reachable world while \<^verbatim>\<open>_waitP\<close> holds a future \<open>p\<close>. The
  method is an async function, so the call makes a new promise and returns that one: it is
  not \<open>p\<close> (which was in the store before), it is resolved with \<open>p\<close>, by a promise job that
  subscribes it to \<open>p\<close>. The call does not call \<^verbatim>\<open>next()\<close> and changes neither the runners, the
  intervals nor the flag. The scenario of the claim follows as an instance: after \<^verbatim>\<open>pause()\<close>
  and a first \<^verbatim>\<open>step()\<close>, \<^verbatim>\<open>_waitP\<close> is promise 1 and a second \<^verbatim>\<open>step()\<close> returns promise 2;
  after \<^verbatim>\<open>unpause()\<close>, the tick and the promise jobs, \<^verbatim>\<open>next()\<close> has been called once, the first
  step's promise holds the outcome and the second one's holds \<^verbatim>\<open>undefined\<close>.
\<close>

theorem step_while_waiting_returns_new_promise:
  assumes "exec dflt src evs (init_world flag) = Some w"
    and "r < length (runners w)"
    and "waitP (runners w ! r) = Some p"
  shows "fst (step src r w) = length (promises w)
    \<and> p < length (promises w)
    \<and> fst (step src r w) \<noteq> p
    \<and> promises (snd (step src r w)) = promises w @ [Pending []]
    \<and> microtasks (snd (step src r w)) = microtasks w @ [ThenableJob (fst (step src r w)) p]
    \<and> calls (snd (step src r w)) = calls w
    \<and> runners (snd (step src r w)) = runners w
    \<and> intervals (snd (step src r w)) = intervals w
    \<and> WBBehaviorPaused (snd (step src r w)) = WBBehaviorPaused w"
proof -
  have "pending w p"
    using pending_waits_Some(2) [OF inv_exec [OF inv_init assms(1)] assms(2,3)] .
  then have "p < length (promises w)" by (simp add: pending_def)
  then show ?thesis
    using assms(3) by (simp add: step_def case_prod_beta)
qed

theorem step_while_waiting_returns_new_promise_witness:
  "exec (doneOrWait JNull) abc_source [New 0 None, Pause 0, Step 0] (init_world JUndefined)
     = Some paused_waiting
   \<and> waitP (runners paused_waiting ! 0) = Some 1
   \<and> fst (step abc_source 0 paused_waiting) = 2
   \<and> calls (snd (step abc_source 0 paused_waiting)) = []
   \<and> map_option (\<lambda>w. (calls w, promises w))
        (exec (doneOrWait JNull) abc_source
           [Step 0, Microtask, Unpause 0, Tick 0,
            Microtask, Microtask, Microtask, Microtask, Microtask] paused_waiting)
     = Some ([(0, 0)],
             [Settled (Fulfilled (StepOutcome False False)),
              Settled (Fulfilled JUndefined),
              Settled (Fulfilled JUndefined),
              Settled (Fulfilled (StepResult False (JStr ''a''))),
              Settled (Fulfilled (StepOutcome False False))])"
proof -
  have e: "exec (doneOrWait JNull) abc_source [New 0 None, Pause 0, Step 0] (init_world JUndefined)
     = Some paused_waiting"
    by (simp add: paused_waiting_eq world_ops)
  have r: "0 < length (runners paused_waiting)"
    and p: "waitP (runners paused_waiting ! 0) = Some 1"
    and n: "length (promises paused_waiting) = 2" "calls paused_waiting = []"
    by (simp_all add: paused_waiting_eq)
  have s: "map_option (\<lambda>w. (calls w, promises w))
        (exec (doneOrWait JNull) abc_source
           [Step 0, Microtask, Unpause 0, Tick 0,
            Microtask, Microtask, Microtask, Microtask, Microtask] paused_waiting)
     = Some ([(0, 0)],
             [Settled (Fulfilled (StepOutcome False False)),
              Settled (Fulfilled JUndefined),
              Settled (Fulfilled JUndefined),
              Settled (Fulfilled (StepResult False (JStr ''a''))),
              Settled (Fulfilled (StepOutcome False False))])"
    by (simp add: paused_waiting_eq world_ops interval_callback_def clearInterval_def
        return_performStep_def performStep_def iter_next_def then_postStepFN_def abc_source_def)
  show ?thesis
    using step_while_waiting_returns_new_promise [OF e r p] e p n s by simp
qed

section \<open>Pausing\<close>

text \<open>
  \<^bold>\<open>C8.\<close> \<^verbatim>\<open>unpause()\<close> in the unpaused state: when the pause flag is falsy, it is falsy
  afterwards, and the runners (with their \<^verbatim>\<open>_waitP\<close> and interval handle), the promises, the
  live intervals, the job queue and the calls made on the iterators are as before: no
  future is created and none is resolved. When the flag is the value \<^verbatim>\<open>false\<close> already, the
  call changes nothing at all.
\<close>

theorem unpause_unpaused_noop:
  assumes "\<not> truthy (WBBehaviorPaused w)"
  shows "\<not> truthy (WBBehaviorPaused (unpause r w))
    \<and> runners (unpause r w) = runners w
    \<and> promises (unpause r w) = promises w
    \<and> intervals (unpause r w) = intervals w
    \<and> next_interval (unpause r w) = next_interval w
    \<and> microtasks (unpause r w) = microtasks w
    \<and> calls (unpause r w) = calls w
    \<and> (WBBehaviorPaused w = JBool False \<longrightarrow> unpause r w = w)"
  by (simp add: unpause_def)

theorem unpause_unpaused_noop_witness:
  "exec (doneOrWait JNull) abc_source [New 0 None, Pause 0, Step 0, Unpause 0]
     (init_world JUndefined) = Some (unpause 0 paused_waiting)
   \<and> fire (doneOrWait JNull) abc_source (Unpause 0) (unpause 0 paused_waiting)
       = Some (unpause 0 (unpause 0 paused_waiting))
   \<and> WBBehaviorPaused (unpause 0 paused_waiting) = JBool False
   \<and> \<not> truthy (WBBehaviorPaused (unpause 0 paused_waiting))
   \<and> waitP (runners (unpause 0 paused_waiting) ! 0) = Some 1
   \<and> upCheckInterval (runners (unpause 0 paused_waiting) ! 0) = Some 0
   \<and> pending (unpause 0 paused_waiting) 1
   \<and> unpause 0 (unpause 0 paused_waiting) = unpause 0 paused_waiting
   \<and> WBBehaviorPaused (unpause 0 (unpause 0 paused_waiting)) = JBool False
   \<and> runners (unpause 0 (unpause 0 paused_waiting))
       = [\<lparr>stepIterator = 0, upCheckInterval = Some 0,
           postStepFN = Some (doneOrWait JNull), waitP = Some 1\<rparr>]
   \<and> promises (unpause 0 (unpause 0 paused_waiting)) = [Pending [], Pending [StepResume 0 0]]
   \<and> intervals (unpause 0 (unpause 0 paused_waiting)) = [(0, 0, 1)]
   \<and> next_interval (unpause 0 (unpause 0 paused_waiting)) = 1
   \<and> microtasks (unpause 0 (unpause 0 paused_waiting)) = []
   \<and> calls (unpause 0 (unpause 0 paused_waiting)) = []
   \<and> \<not> truthy (WBBehaviorPaused one_runner)
   \<and> \<not> truthy (WBBehaviorPaused (unpause 0 one_runner))
   \<and> runners (unpause 0 one_runner) = runners one_runner
   \<and> promises (unpause 0 one_runner) = []
   \<and> intervals (unpause 0 one_runner) = []"
proof -
  let ?w = "unpause 0 paused_waiting"
  have f: "\<not> truthy (WBBehaviorPaused ?w)" and v: "WBBehaviorPaused ?w = JBool False"
    and r: "runners ?w = [\<lparr>stepIterator = 0, upCheckInterval = Some 0,
           postStepFN = Some (doneOrWait JNull), waitP = Some 1\<rparr>]"
    and p: "promises ?w = [Pending [], Pending [StepResume 0 0]]"
    and i: "intervals ?w = [(0, 0, 1)]" "next_interval ?w = 1"
    and q: "microtasks ?w = []" "calls ?w = []"
    by (simp_all add: paused_waiting_eq unpause_def)
  have pe: "pending ?w 1"
    by (simp add: pending_def p)
  have g: "fire (doneOrWait JNull) abc_source (Unpause 0) ?w = Some (unpause 0 ?w)"
    by (simp add: guard_def r)
  have o: "\<not> truthy (WBBehaviorPaused one_runner)" "runners one_runner \<noteq> []"
    "promises one_runner = []" "intervals one_runner = []"
    by (simp_all add: one_runner_eq)
  show ?thesis
    using unpause_unpaused_noop [OF f, of 0] unpause_unpaused_noop [OF o(1), of 0]
      exec_paused_waiting f v r p i q pe g o
    by simp
qed

end
